theory Spec2Isabelle
  imports Complex_Main "HOL-Library.Word" "HOL-Library.Multiset" "HOL-Library.Product_Lexorder"
begin

section \<open>Snapshot manager (internal/snapshot)\<close>

text \<open>
  The Go code shares \<^verbatim>\<open>*SegmentRef\<close> pointers between the manager's
  \<^verbatim>\<open>currentSegments\<close> map and the \<^verbatim>\<open>Segments\<close> slice of every snapshot.
  The model keeps the referenced objects in an explicit store (a list indexed by address);
  a pointer is an index into it and allocation appends. Go's \<^verbatim>\<open>map[string]*SegmentRef\<close>
  is an association list with unique keys; Go leaves the iteration order of a map
  unspecified, the model iterates in list order, and the statements below only speak
  about membership in the returned lists. Locks, the logger and wall-clock fields are
  left out: every operation is modelled as one atomic step. A panic is a value.
\<close>

type_synonym addr = nat
type_synonym generation = "64 word"

record SegmentRef =
  segmentID :: string
  refCount :: int
  inManifest :: bool

record Snapshot =
  ID :: "64 word"
  Generation :: generation
  Segments :: "addr list"
  released :: bool

record Manager =
  store :: "SegmentRef list"
  currentGeneration :: generation
  currentSegments :: "(string \<times> addr) list"
  activeSnapshots :: "(64 word \<times> Snapshot) list"
  nextSnapshotID :: "64 word"

datatype panic =
  RefCountNegative string
  | GenerationNotMonotonic generation generation

definition NewSegmentRef :: "string \<Rightarrow> SegmentRef" where
  "NewSegmentRef sid = \<lparr>segmentID = sid, refCount = 0, inManifest = False\<rparr>"

definition Pin :: "SegmentRef \<Rightarrow> SegmentRef" where
  "Pin r = r\<lparr>refCount := refCount r + 1\<rparr>"

text \<open>\<^verbatim>\<open>Unpin\<close> stores the decremented counter first and panics afterwards.\<close>

definition Unpin :: "SegmentRef \<Rightarrow> panic option \<times> SegmentRef" where
  "Unpin r =
     (let newVal = refCount r - 1;
          r' = r\<lparr>refCount := newVal\<rparr>
      in if newVal < 0 then (Some (RefCountNegative (segmentID r)), r') else (None, r'))"

definition SetInManifest :: "bool \<Rightarrow> SegmentRef \<Rightarrow> SegmentRef" where
  "SetInManifest b r = r\<lparr>inManifest := b\<rparr>"

definition CanReclaim :: "SegmentRef \<Rightarrow> bool" where
  "CanReclaim r \<longleftrightarrow> refCount r = 0 \<and> \<not> inManifest r"

text \<open>Map assignment \<^verbatim>\<open>m[k] = v\<close> on the association list.\<close>

fun map_set :: "'k \<Rightarrow> 'v \<Rightarrow> ('k \<times> 'v) list \<Rightarrow> ('k \<times> 'v) list" where
  "map_set k v [] = [(k, v)]"
| "map_set k v ((k', v') # kvs) =
     (if k = k' then (k, v) # kvs else (k', v') # map_set k v kvs)"

text \<open>\<^verbatim>\<open>delete(m, k)\<close>.\<close>

definition map_delete :: "'k \<Rightarrow> ('k \<times> 'v) list \<Rightarrow> ('k \<times> 'v) list" where
  "map_delete k kvs = filter (\<lambda>kv. fst kv \<noteq> k) kvs"

text \<open>The loop of \<^verbatim>\<open>NewManager\<close>: one fresh ref per listed id, marked in-manifest.\<close>

fun new_refs :: "string list \<Rightarrow> SegmentRef list \<Rightarrow> (string \<times> addr) list
    \<Rightarrow> SegmentRef list \<times> (string \<times> addr) list" where
  "new_refs [] st refs = (st, refs)"
| "new_refs (sid # ids) st refs =
     new_refs ids (st @ [SetInManifest True (NewSegmentRef sid)]) (map_set sid (length st) refs)"

definition NewManager :: "generation \<Rightarrow> string list \<Rightarrow> Manager" where
  "NewManager initialGeneration segmentIDs =
     (let (st, refs) = new_refs segmentIDs [] []
      in \<lparr>store = st, currentGeneration = initialGeneration, currentSegments = refs,
          activeSnapshots = [], nextSnapshotID = 0\<rparr>)"

text \<open>\<^verbatim>\<open>Acquire\<close>: pin every current ref unless the generation is 0.\<close>

fun pin_all :: "addr list \<Rightarrow> SegmentRef list \<Rightarrow> SegmentRef list" where
  "pin_all [] st = st"
| "pin_all (a # as) st = pin_all as (st[a := Pin (st ! a)])"

definition Acquire :: "Manager \<Rightarrow> Snapshot \<times> Manager" where
  "Acquire m =
     (let gen = currentGeneration m;
          segments = (if gen \<noteq> 0 then map snd (currentSegments m) else []);
          st = pin_all segments (store m);
          newID = nextSnapshotID m + 1;
          snap = \<lparr>ID = newID, Generation = gen, Segments = segments, released = False\<rparr>
      in (snap, m\<lparr>store := st, nextSnapshotID := newID,
                   activeSnapshots := map_set newID snap (activeSnapshots m)\<rparr>))"

text \<open>First loop of \<^verbatim>\<open>UpdateGeneration\<close>: build \<^verbatim>\<open>newRefs\<close>, carrying existing refs forward.\<close>

fun build_new_refs :: "string list \<Rightarrow> (string \<times> addr) list \<Rightarrow> SegmentRef list
    \<Rightarrow> (string \<times> addr) list \<Rightarrow> SegmentRef list \<times> (string \<times> addr) list" where
  "build_new_refs [] cur st newRefs = (st, newRefs)"
| "build_new_refs (sid # ids) cur st newRefs =
     (case map_of cur sid of
        Some existing \<Rightarrow> build_new_refs ids cur st (map_set sid existing newRefs)
      | None \<Rightarrow>
          build_new_refs ids cur (st @ [SetInManifest True (NewSegmentRef sid)])
            (map_set sid (length st) newRefs))"

text \<open>Second loop: flag the segments that left the manifest and collect the unpinned ones.\<close>

fun mark_removed :: "(string \<times> addr) list \<Rightarrow> string list \<Rightarrow> SegmentRef list \<Rightarrow> string list
    \<Rightarrow> SegmentRef list \<times> string list" where
  "mark_removed [] newIDs st reclaimable = (st, reclaimable)"
| "mark_removed ((sid, a) # cur) newIDs st reclaimable =
     (if sid \<notin> set newIDs then
        (let st' = st[a := SetInManifest False (st ! a)]
         in mark_removed cur newIDs st'
              (if CanReclaim (st' ! a) then reclaimable @ [sid] else reclaimable))
      else mark_removed cur newIDs st reclaimable)"

definition UpdateGeneration :: "Manager \<Rightarrow> generation \<Rightarrow> string list
    \<Rightarrow> (panic + string list) \<times> Manager" where
  "UpdateGeneration m newGeneration newSegmentIDs =
     (if newGeneration \<le> currentGeneration m then
        (Inl (GenerationNotMonotonic (currentGeneration m) newGeneration), m)
      else
        (let (st1, newRefs) = build_new_refs newSegmentIDs (currentSegments m) (store m) [];
             (st2, reclaimable) = mark_removed (currentSegments m) newSegmentIDs st1 []
         in (Inr reclaimable,
             m\<lparr>store := st2, currentGeneration := newGeneration, currentSegments := newRefs\<rparr>)))"

definition CurrentGeneration :: "Manager \<Rightarrow> generation" where
  "CurrentGeneration m = currentGeneration m"

definition SegmentRefCount :: "Manager \<Rightarrow> string \<Rightarrow> int" where
  "SegmentRefCount m sid =
     (case map_of (currentSegments m) sid of Some a \<Rightarrow> refCount (store m ! a) | None \<Rightarrow> - 1)"

definition Reclaimable :: "Manager \<Rightarrow> string list" where
  "Reclaimable m = map fst (filter (\<lambda>(sid, a). CanReclaim (store m ! a)) (currentSegments m))"

text \<open>\<^verbatim>\<open>Snapshot.Release\<close>: compare-and-swap on the flag, unpin in order, deregister.
  A panic of \<^verbatim>\<open>Unpin\<close> leaves the flag set, the refs unpinned so far decremented and the
  snapshot registered.\<close>

fun unpin_all :: "addr list \<Rightarrow> SegmentRef list \<Rightarrow> panic option \<times> SegmentRef list" where
  "unpin_all [] st = (None, st)"
| "unpin_all (a # as) st =
     (case Unpin (st ! a) of
        (Some p, r') \<Rightarrow> (Some p, st[a := r'])
      | (None, r') \<Rightarrow> unpin_all as (st[a := r']))"

definition releaseSnapshot :: "Manager \<Rightarrow> Snapshot \<Rightarrow> Manager" where
  "releaseSnapshot m snap = m\<lparr>activeSnapshots := map_delete (ID snap) (activeSnapshots m)\<rparr>"

definition Release :: "Snapshot \<Rightarrow> Manager \<Rightarrow> panic option \<times> Snapshot \<times> Manager" where
  "Release s m =
     (if released s then (None, s, m)
      else
        (let s' = s\<lparr>released := True\<rparr> in
         case unpin_all (Segments s') (store m) of
           (Some p, st) \<Rightarrow> (Some p, s', m\<lparr>store := st\<rparr>)
         | (None, st) \<Rightarrow> (None, s', releaseSnapshot (m\<lparr>store := st\<rparr>) s')))"


text \<open>A run of \<^verbatim>\<open>UpdateGeneration\<close> calls in which a panicking call is recovered by the
  caller: the generations the manager reports after each successful call.\<close>

fun generations_after :: "Manager \<Rightarrow> (generation \<times> string list) list \<Rightarrow> generation list" where
  "generations_after m [] = []"
| "generations_after m ((g, ids) # calls) =
     (case UpdateGeneration m g ids of
        (Inl p, m') \<Rightarrow> generations_after m' calls
      | (Inr r, m') \<Rightarrow> currentGeneration m' # generations_after m' calls)"


section \<open>Binary heaps (Go's container/heap, as used by the engine)\<close>

text \<open>
  Both \<^verbatim>\<open>scoreHeap\<close> and \<^verbatim>\<open>iterHeap\<close> are slices driven by the standard library's
  \<^verbatim>\<open>container/heap\<close>. Its functions \<^verbatim>\<open>up\<close>, \<^verbatim>\<open>down\<close>, \<^verbatim>\<open>Init\<close>, \<^verbatim>\<open>Push\<close>, \<^verbatim>\<open>Pop\<close> and
  \<^verbatim>\<open>Fix\<close> are transcribed here over a list, with the \<^verbatim>\<open>Less\<close> method of the slice type
  as the parameter \<open>lt\<close> (on elements). Indices are natural numbers: Go's parent index
  \<^verbatim>\<open>(j - 1) / 2\<close> is 0 for \<^verbatim>\<open>j = 0\<close> (division truncates towards zero), and so is the
  model's \<open>(j - 1) div 2\<close>.
\<close>

definition swap :: "'a list \<Rightarrow> nat \<Rightarrow> nat \<Rightarrow> 'a list" where
  "swap h i j = h[i := h ! j, j := h ! i]"

function up :: "('a \<Rightarrow> 'a \<Rightarrow> bool) \<Rightarrow> 'a list \<Rightarrow> nat \<Rightarrow> 'a list" where
  "up lt h j =
     (let i = (j - 1) div 2
      in if i = j \<or> \<not> lt (h ! j) (h ! i) then h else up lt (swap h i j) i)"
  by pat_completeness auto
termination
  by (relation "measure (\<lambda>(lt, h, j). j)") auto

declare up.simps [simp del]

text \<open>The loop of \<^verbatim>\<open>down\<close>; it returns the slice and the final index \<^verbatim>\<open>i\<close>.\<close>

function down_loop :: "('a \<Rightarrow> 'a \<Rightarrow> bool) \<Rightarrow> 'a list \<Rightarrow> nat \<Rightarrow> nat \<Rightarrow> 'a list \<times> nat" where
  "down_loop lt h i n =
     (let j1 = 2 * i + 1
      in if j1 \<ge> n then (h, i)
         else
           (let j = (if j1 + 1 < n \<and> lt (h ! (j1 + 1)) (h ! j1) then j1 + 1 else j1)
            in if \<not> lt (h ! j) (h ! i) then (h, i)
               else down_loop lt (swap h i j) j n))"
  by pat_completeness auto
termination
  by (relation "measure (\<lambda>(lt, h, i, n). n - i)") (auto simp: Let_def)

declare down_loop.simps [simp del]

definition down :: "('a \<Rightarrow> 'a \<Rightarrow> bool) \<Rightarrow> 'a list \<Rightarrow> nat \<Rightarrow> nat \<Rightarrow> 'a list \<times> bool" where
  "down lt h i0 n = (let (h', i) = down_loop lt h i0 n in (h', i > i0))"

text \<open>\<^verbatim>\<open>Init\<close>: \<^verbatim>\<open>for i := n/2 - 1; i >= 0; i-- { down(h, i, n) }\<close>; the argument \<open>k\<close> of the
  loop is \<^verbatim>\<open>i + 1\<close>.\<close>

fun init_loop :: "('a \<Rightarrow> 'a \<Rightarrow> bool) \<Rightarrow> 'a list \<Rightarrow> nat \<Rightarrow> 'a list" where
  "init_loop lt h 0 = h"
| "init_loop lt h (Suc i) = init_loop lt (fst (down lt h i (length h))) i"

definition heap_Init :: "('a \<Rightarrow> 'a \<Rightarrow> bool) \<Rightarrow> 'a list \<Rightarrow> 'a list" where
  "heap_Init lt h = init_loop lt h (length h div 2)"

definition heap_Push :: "('a \<Rightarrow> 'a \<Rightarrow> bool) \<Rightarrow> 'a list \<Rightarrow> 'a \<Rightarrow> 'a list" where
  "heap_Push lt h x = up lt (h @ [x]) (length h)"

text \<open>\<^verbatim>\<open>Pop\<close> on an empty slice panics in \<^verbatim>\<open>Swap(0, -1)\<close>: the result \<open>None\<close>.\<close>

definition heap_Pop :: "('a \<Rightarrow> 'a \<Rightarrow> bool) \<Rightarrow> 'a list \<Rightarrow> ('a \<times> 'a list) option" where
  "heap_Pop lt h =
     (if h = [] then None
      else
        (let n = length h - 1;
             h1 = swap h 0 n;
             h2 = fst (down lt h1 0 n)
         in Some (h2 ! n, take n h2)))"

definition heap_Fix :: "('a \<Rightarrow> 'a \<Rightarrow> bool) \<Rightarrow> 'a list \<Rightarrow> nat \<Rightarrow> 'a list" where
  "heap_Fix lt h i =
     (case down lt h i (length h) of
        (h', moved) \<Rightarrow> if \<not> moved then up lt h' i else h')"

subsection \<open>The heap functions permute the slice\<close>

lemma swap_length [simp]: "length (swap h i j) = length h"
  by (simp add: swap_def)

lemma swap_mset: "i < length h \<Longrightarrow> j < length h \<Longrightarrow> mset (swap h i j) = mset h"
  by (simp add: swap_def mset_swap)

lemma down_loop_length [simp]: "length (fst (down_loop lt h i n)) = length h"
proof (induction lt h i n rule: down_loop.induct)
  case (1 lt h i n)
  show ?case
    apply (subst down_loop.simps)
    using 1 by (auto simp: Let_def)
qed

lemma down_loop_mset: "n \<le> length h \<Longrightarrow> mset (fst (down_loop lt h i n)) = mset h"
proof (induction lt h i n rule: down_loop.induct)
  case (1 lt h i n)
  show ?case
    apply (subst down_loop.simps)
    using 1 by (auto simp: Let_def swap_mset)
qed

lemma down_length [simp]: "length (fst (down lt h i n)) = length h"
  by (simp add: down_def split: prod.splits) (metis down_loop_length fst_conv)

lemma down_mset: "n \<le> length h \<Longrightarrow> mset (fst (down lt h i n)) = mset h"
  by (simp add: down_def split: prod.splits) (metis down_loop_mset fst_conv)

lemma up_length [simp]: "length (up lt h j) = length h"
proof (induction lt h j rule: up.induct)
  case (1 lt h j)
  show ?case
    apply (subst up.simps)
    using 1 by (auto simp: Let_def)
qed

lemma up_mset: "j < length h \<Longrightarrow> mset (up lt h j) = mset h"
proof (induction lt h j rule: up.induct)
  case (1 lt h j)
  show ?case
    apply (subst up.simps)
    using 1 by (auto simp: Let_def swap_mset)
qed

lemma up_0 [simp]: "up lt h 0 = h"
  by (subst up.simps) simp

lemma heap_Fix_0: "heap_Fix lt h 0 = fst (down lt h 0 (length h))"
  by (simp add: heap_Fix_def split: prod.splits)

lemma heap_Fix_0_mset: "mset (heap_Fix lt h 0) = mset h"
  by (simp add: heap_Fix_0 down_mset)

lemma heap_Pop_mset:
  assumes "heap_Pop lt h = Some (x, h')"
  shows "add_mset x (mset h') = mset h"
proof -
  let ?n = "length h - 1"
  let ?h2 = "fst (down lt (swap h 0 ?n) 0 ?n)"
  from assms have ne: "h \<noteq> []" and x: "x = ?h2 ! ?n" and h': "h' = take ?n ?h2"
    by (auto simp: heap_Pop_def Let_def split: if_splits)
  from ne have n: "?n < length h" by (cases h) simp_all
  have len: "length ?h2 = length h" by simp
  from ne have z: "0 < length h" by simp
  have "mset (swap h 0 ?n) = mset h"
    using n z by (rule_tac swap_mset) simp_all
  then have m: "mset ?h2 = mset h"
    by (simp add: down_mset)
  have "Suc ?n = length ?h2"
    using z len by simp
  then have "take ?n ?h2 @ [?h2 ! ?n] = ?h2"
    by (metis lessI order_refl take_Suc_conv_app_nth take_all)
  then have "mset ?h2 = mset (take ?n ?h2 @ [?h2 ! ?n])"
    by simp
  then have "mset ?h2 = add_mset (?h2 ! ?n) (mset (take ?n ?h2))"
    by (simp only: mset_append mset.simps) simp
  with m x h' show ?thesis by simp
qed

subsection \<open>The heap order on a slice\<close>

text \<open>
  For a heap whose \<^verbatim>\<open>Less\<close> compares a key of the elements: \<open>heap_from key s n hp\<close> says
  that among the first \<open>n\<close> slots every slot whose parent index is at least \<open>s\<close> holds a
  key not below its parent's; \<open>heap_from key 0 n hp\<close> is the heap order. \<open>heap_except\<close>
  is the same with the slot \<open>i\<close> possibly too large for its children, as it is while
  \<^verbatim>\<open>down\<close> sifts it: the children of \<open>i\<close> are then compared with the parent of \<open>i\<close>.
\<close>

definition heap_from :: "('a \<Rightarrow> 'k::linorder) \<Rightarrow> nat \<Rightarrow> nat \<Rightarrow> 'a list \<Rightarrow> bool" where
  "heap_from key s n hp \<longleftrightarrow>
     (\<forall>j. 0 < j \<and> j < n \<and> s \<le> (j - 1) div 2 \<longrightarrow> key (hp ! ((j - 1) div 2)) \<le> key (hp ! j))"

definition heap_except :: "('a \<Rightarrow> 'k::linorder) \<Rightarrow> nat \<Rightarrow> nat \<Rightarrow> nat \<Rightarrow> 'a list \<Rightarrow> bool" where
  "heap_except key s i n hp \<longleftrightarrow>
     (\<forall>j. 0 < j \<and> j < n \<and> s \<le> (j - 1) div 2 \<and> (j - 1) div 2 \<noteq> i
          \<longrightarrow> key (hp ! ((j - 1) div 2)) \<le> key (hp ! j))
     \<and> (\<forall>j. 0 < j \<and> j < n \<and> (j - 1) div 2 = i \<and> 0 < i \<and> s \<le> (i - 1) div 2
          \<longrightarrow> key (hp ! ((i - 1) div 2)) \<le> key (hp ! j))"

text \<open>\<open>heap_except_up\<close>: the heap order with the slot \<open>j\<close> possibly too small for its
  parent, as it is while \<^verbatim>\<open>up\<close> lifts it: the children of \<open>j\<close> are then compared with
  the parent of \<open>j\<close>.\<close>

definition heap_except_up :: "('a \<Rightarrow> 'k::linorder) \<Rightarrow> nat \<Rightarrow> nat \<Rightarrow> 'a list \<Rightarrow> bool" where
  "heap_except_up key j n hp \<longleftrightarrow>
     (\<forall>c. 0 < c \<and> c < n \<and> c \<noteq> j \<longrightarrow> key (hp ! ((c - 1) div 2)) \<le> key (hp ! c))
     \<and> (\<forall>c. 0 < c \<and> c < n \<and> (c - 1) div 2 = j \<and> 0 < j
          \<longrightarrow> key (hp ! ((j - 1) div 2)) \<le> key (hp ! c))"

section \<open>Top-K collector (package engine)\<close>

text \<open>
  \<^verbatim>\<open>Score\<close> is a \<^verbatim>\<open>float32\<close> in the source. The collector never computes with a score, it
  only compares scores, so the model keeps of a \<^verbatim>\<open>float32\<close> what the comparisons of Go
  see: not-a-number, the two infinities, and the number a finite float denotes (a real;
  the finite floats are some of the reals, and the two zeros of \<^verbatim>\<open>float32\<close>, which compare
  equal, are the one number 0). \<open>f32_less\<close> is Go's \<^verbatim>\<open><\<close> and \<open>f32_le\<close> is Go's \<^verbatim>\<open><=\<close>:
  both are false as soon as one operand is NaN. \<^verbatim>\<open>k\<close> is a Go \<^verbatim>\<open>int\<close>.
\<close>

datatype float32 = NaN | NegInf | Fin real | PosInf

fun f32_less :: "float32 \<Rightarrow> float32 \<Rightarrow> bool" where
  "f32_less (Fin x) (Fin y) \<longleftrightarrow> x < y"
| "f32_less NegInf (Fin y) \<longleftrightarrow> True"
| "f32_less NegInf PosInf \<longleftrightarrow> True"
| "f32_less (Fin x) PosInf \<longleftrightarrow> True"
| "f32_less _ _ \<longleftrightarrow> False"

fun f32_le :: "float32 \<Rightarrow> float32 \<Rightarrow> bool" where
  "f32_le (Fin x) (Fin y) \<longleftrightarrow> x \<le> y"
| "f32_le NegInf NegInf \<longleftrightarrow> True"
| "f32_le NegInf (Fin y) \<longleftrightarrow> True"
| "f32_le NegInf PosInf \<longleftrightarrow> True"
| "f32_le (Fin x) PosInf \<longleftrightarrow> True"
| "f32_le PosInf PosInf \<longleftrightarrow> True"
| "f32_le _ _ \<longleftrightarrow> False"

record ScoredDoc =
  DocID :: "32 word"
  Score :: float32

text \<open>The fields \<^verbatim>\<open>k\<close>, \<^verbatim>\<open>h\<close> and \<^verbatim>\<open>minScore\<close> of the collector carry the prefix
  \<open>tk_\<close>, so that \<open>k\<close> and \<open>h\<close> stay free for variables.\<close>

record TopKCollector =
  tk_k :: int
  tk_h :: "ScoredDoc list"
  tk_minScore :: float32

definition scoreLess :: "ScoredDoc \<Rightarrow> ScoredDoc \<Rightarrow> bool" where
  "scoreLess a b \<longleftrightarrow> f32_less (Score a) (Score b)"

text \<open>\<^verbatim>\<open>make(scoreHeap, 0, k)\<close> panics when the capacity is out of range: negative, or more
  elements of 8 bytes (a \<^verbatim>\<open>uint32\<close> and a \<^verbatim>\<open>float32\<close>) than the runtime can allocate,
  which is \<^verbatim>\<open>2^48\<close> bytes on the 64-bit targets. \<open>NewTopKCollector\<close> is the collector
  returned when \<^verbatim>\<open>make\<close> does not panic.\<close>

definition make_panics :: "int \<Rightarrow> bool" where
  "make_panics cap \<longleftrightarrow> cap < 0 \<or> 2 ^ 48 < 8 * cap"

definition NewTopKCollector :: "int \<Rightarrow> TopKCollector" where
  "NewTopKCollector k0 =
     (let k1 = (if k0 \<le> 0 then 10 else k0)
      in \<lparr>tk_k = k1, tk_h = [], tk_minScore = Fin 0\<rparr>)"

definition Collect :: "TopKCollector \<Rightarrow> 32 word \<Rightarrow> float32 \<Rightarrow> TopKCollector" where
  "Collect c docID score =
     (if int (length (tk_h c)) < tk_k c then
        (let h1 = heap_Push scoreLess (tk_h c) \<lparr>DocID = docID, Score = score\<rparr>
         in if int (length h1) = tk_k c then c\<lparr>tk_h := h1, tk_minScore := Score (h1 ! 0)\<rparr>
            else c\<lparr>tk_h := h1\<rparr>)
      else if f32_less (tk_minScore c) score then
        (let h1 = (tk_h c)[0 := \<lparr>DocID = docID, Score = score\<rparr>];
             h2 = heap_Fix scoreLess h1 0
         in c\<lparr>tk_h := h2, tk_minScore := Score (h2 ! 0)\<rparr>)
      else c)"

definition MinScore :: "TopKCollector \<Rightarrow> float32" where
  "MinScore c = tk_minScore c"

definition Len :: "TopKCollector \<Rightarrow> nat" where
  "Len c = length (tk_h c)"

text \<open>\<^verbatim>\<open>Results\<close> pops \<^verbatim>\<open>Len()\<close> times and fills the result from its last index down, so
  the first document popped comes last. It drains the heap of the collector.\<close>

fun results_loop :: "nat \<Rightarrow> ScoredDoc list \<Rightarrow> ScoredDoc list
    \<Rightarrow> (ScoredDoc list \<times> ScoredDoc list) option" where
  "results_loop 0 hp acc = Some (acc, hp)"
| "results_loop (Suc i) hp acc =
     (case heap_Pop scoreLess hp of
        None \<Rightarrow> None
      | Some (x, hp') \<Rightarrow> results_loop i hp' (x # acc))"

definition Results :: "TopKCollector \<Rightarrow> (ScoredDoc list \<times> TopKCollector) option" where
  "Results c =
     (case results_loop (length (tk_h c)) (tk_h c) [] of
        None \<Rightarrow> None
      | Some (result, hp) \<Rightarrow> Some (result, c\<lparr>tk_h := hp\<rparr>))"

text \<open>A run of \<^verbatim>\<open>Collect\<close> calls, in order.\<close>

fun collect_all :: "TopKCollector \<Rightarrow> (32 word \<times> float32) list \<Rightarrow> TopKCollector" where
  "collect_all c [] = c"
| "collect_all c ((d, s) # ds) = collect_all (Collect c d s) ds"

text \<open>For scores that are not NaN, Go's comparisons are those of a linear order: \<open>rank\<close>
  places minus infinity below the numbers and plus infinity above them, in the
  lexicographic order of pairs. \<open>score_rank\<close> is the rank of the score of a document.\<close>

fun rank :: "float32 \<Rightarrow> nat \<times> real" where
  "rank NegInf = (0, 0)"
| "rank (Fin x) = (1, x)"
| "rank PosInf = (2, 0)"
| "rank NaN = (3, 0)"

definition score_rank :: "ScoredDoc \<Rightarrow> nat \<times> real" where
  "score_rank sd = rank (Score sd)"

text \<open>The state of a collector after the documents \<open>seen\<close> have been collected, none of
  them with the score NaN: a heap by score of at most \<open>k\<close> documents; \<^verbatim>\<open>minScore\<close> is the
  score at the root once the heap is full; the documents seen are those in the heap and
  the dropped ones, nothing is dropped before the heap is full, and no dropped document
  scores above a retained one.\<close>

definition topk_inv :: "TopKCollector \<Rightarrow> ScoredDoc multiset \<Rightarrow> bool" where
  "topk_inv c seen \<longleftrightarrow>
     0 < tk_k c
     \<and> (\<forall>y \<in> set (tk_h c). Score y \<noteq> NaN)
     \<and> heap_from score_rank 0 (length (tk_h c)) (tk_h c)
     \<and> int (length (tk_h c)) \<le> tk_k c
     \<and> (int (length (tk_h c)) = tk_k c \<longrightarrow> tk_minScore c = Score (tk_h c ! 0))
     \<and> (\<exists>dropped. seen = mset (tk_h c) + dropped
           \<and> (int (length (tk_h c)) < tk_k c \<longrightarrow> dropped = {#})
           \<and> (\<forall>x \<in># dropped. \<forall>y \<in> set (tk_h c). score_rank x \<le> score_rank y))"

text \<open>The documents handed to \<^verbatim>\<open>Collect\<close>, as \<^verbatim>\<open>ScoredDoc\<close> values.\<close>

definition scored :: "(32 word \<times> float32) list \<Rightarrow> ScoredDoc list" where
  "scored docs = map (\<lambda>(d, s). \<lparr>DocID = d, Score = s\<rparr>) docs"
section \<open>Levenshtein automaton (package automaton)\<close>

text \<open>
  \<^verbatim>\<open>State\<close> is a \<^verbatim>\<open>uint32\<close>, input and target are byte slices, positions and edit counts
  are Go \<^verbatim>\<open>int\<close>s. Go's \<^verbatim>\<open>/\<close> and \<^verbatim>\<open>%\<close> truncate towards zero.
\<close>

type_synonym State = "32 word"

definition DeadState :: State where
  "DeadState = 0"

record LevenshteinAutomaton =
  target :: "8 word list"
  maxDist :: int

datatype automaton_error = ErrEditDistanceTooLarge

definition MaxEditDistance :: int where
  "MaxEditDistance = 2"

definition NewLevenshteinAutomaton :: "8 word list \<Rightarrow> int \<Rightarrow> automaton_error + LevenshteinAutomaton" where
  "NewLevenshteinAutomaton tgt d =
     (if d > MaxEditDistance then Inl ErrEditDistanceTooLarge
      else if d < 0 then Inl ErrEditDistanceTooLarge
      else Inr \<lparr>target = tgt, maxDist = d\<rparr>)"

definition go_div :: "int \<Rightarrow> int \<Rightarrow> int" where
  "go_div a b = sgn a * sgn b * (\<bar>a\<bar> div \<bar>b\<bar>)"

definition go_mod :: "int \<Rightarrow> int \<Rightarrow> int" where
  "go_mod a b = a - b * go_div a b"

definition encodeState :: "LevenshteinAutomaton \<Rightarrow> int \<Rightarrow> int \<Rightarrow> State" where
  "encodeState a p editsUsed =
     (if editsUsed > maxDist a then DeadState
      else if p > int (length (target a)) + maxDist a then DeadState
      else word_of_int (p * (maxDist a + 1) + editsUsed + 1))"

text \<open>\<^verbatim>\<open>decodeState\<close> returns the pair (pos, editsUsed).\<close>

definition decodeState :: "LevenshteinAutomaton \<Rightarrow> State \<Rightarrow> int \<times> int" where
  "decodeState a state =
     (let v = uint state - 1
      in (go_div v (maxDist a + 1), go_mod v (maxDist a + 1)))"

definition Start :: "LevenshteinAutomaton \<Rightarrow> State" where
  "Start a = encodeState a 0 0"

text \<open>The loop of \<^verbatim>\<open>bestState\<close> over its arguments, carrying \<^verbatim>\<open>best\<close> and \<^verbatim>\<open>bestPos\<close>.\<close>

fun bestState_loop :: "LevenshteinAutomaton \<Rightarrow> State list \<Rightarrow> State \<Rightarrow> int \<Rightarrow> State" where
  "bestState_loop a [] best bestPos = best"
| "bestState_loop a (s # states) best bestPos =
     (if s = DeadState then bestState_loop a states best bestPos
      else
        (let p = fst (decodeState a s)
         in if p > bestPos then bestState_loop a states s p
            else bestState_loop a states best bestPos))"

definition bestState :: "LevenshteinAutomaton \<Rightarrow> State list \<Rightarrow> State" where
  "bestState a states = bestState_loop a states DeadState (- 1)"

definition Step :: "LevenshteinAutomaton \<Rightarrow> State \<Rightarrow> 8 word \<Rightarrow> State" where
  "Step a state b =
     (if state = DeadState then DeadState
      else
        (let (p, editsUsed) = decodeState a state
         in if p \<ge> int (length (target a)) then
              (let newEdits = editsUsed + 1
               in if newEdits > maxDist a then DeadState else encodeState a p newEdits)
            else if b = target a ! nat p then encodeState a (p + 1) editsUsed
            else if editsUsed \<ge> maxDist a then DeadState
            else
              (let substState = encodeState a (p + 1) (editsUsed + 1);
                   insertState = encodeState a p (editsUsed + 1)
               in if p + 1 < int (length (target a)) \<and> b = target a ! nat (p + 1) then
                    (let delMatchState = encodeState a (p + 2) (editsUsed + 1)
                     in bestState a [substState, insertState, delMatchState])
                  else bestState a [substState, insertState, DeadState])))"

definition IsAccept :: "LevenshteinAutomaton \<Rightarrow> State \<Rightarrow> bool" where
  "IsAccept a state =
     (if state = DeadState then False
      else
        (let (p, editsUsed) = decodeState a state;
             remaining = int (length (target a)) - p
         in remaining \<le> maxDist a - editsUsed))"

definition CanMatch :: "LevenshteinAutomaton \<Rightarrow> State \<Rightarrow> bool" where
  "CanMatch a state \<longleftrightarrow> state \<noteq> DeadState"

text \<open>Driving the automaton over an input, as \<^verbatim>\<open>runAutomaton\<close> of the tests does.\<close>

fun run_from :: "LevenshteinAutomaton \<Rightarrow> State \<Rightarrow> 8 word list \<Rightarrow> State" where
  "run_from a state [] = state"
| "run_from a state (b # bs) = run_from a (Step a state b) bs"

definition runAutomaton :: "LevenshteinAutomaton \<Rightarrow> 8 word list \<Rightarrow> bool" where
  "runAutomaton a input = IsAccept a (run_from a (Start a) input)"

text \<open>The Levenshtein edit distance of two byte strings, by its defining recursion:
  the reference against which acceptance is judged.\<close>

fun edit_distance :: "8 word list \<Rightarrow> 8 word list \<Rightarrow> nat" where
  "edit_distance [] ys = length ys"
| "edit_distance (x # xs) [] = Suc (length xs)"
| "edit_distance (x # xs) (y # ys) =
     min (min (Suc (edit_distance xs (y # ys))) (Suc (edit_distance (x # xs) ys)))
         (edit_distance xs ys + (if x = y then 0 else 1))"

section \<open>Crash recovery (packages index and recovery)\<close>

text \<open>
  The index directory is modelled by what recovery reads and writes in it:
  \<^item> \<^verbatim>\<open>manifest.current\<close>: absent, holding a generation, or holding text that does not
    parse (the trimming and parsing of \<^verbatim>\<open>ReadCurrentGeneration\<close> is abstracted to these
    three outcomes; an empty file reads as generation 0 like an absent one);
  \<^item> \<^verbatim>\<open>manifests/manifest_gen_N.json\<close>: per generation, absent from the association
    list, present but failing \<^verbatim>\<open>UnmarshalManifest\<close>, or present and intact;
  \<^item> \<^verbatim>\<open>segments/\<close>: the existing segment directories, each with its files and the
    checksum of the bytes each file holds now;
  \<^item> \<^verbatim>\<open>tmp/\<close>: the names of its entries;
  \<^item> whether writing \<^verbatim>\<open>manifest.current\<close> fails with an I/O error.
  Logging is left out. The cleaning steps 5 to 8 are modelled without I/O failures; in
  the source their errors are logged and do not change the fields of the result that
  the statements below concern.
\<close>

record SegmentMeta =
  seg_ID :: string
  seg_Files :: "(string \<times> string) list"

record Manifest =
  man_Generation :: generation
  man_Segments :: "SegmentMeta list"

datatype current_file = NoFile | Holds generation | Unparseable

datatype manifest_file = Corrupt | Intact Manifest

record IndexDir =
  manifest_current :: current_file
  manifests :: "(generation \<times> manifest_file) list"
  segment_dirs :: "(string \<times> (string \<times> string) list) list"
  tmp_entries :: "string list"
  write_current_fails :: bool

record Options =
  ManifestRetention :: int
  VerifySegmentChecksums :: bool

definition DefaultOptions :: Options where
  "DefaultOptions = \<lparr>ManifestRetention = 2, VerifySegmentChecksums = True\<rparr>"

datatype recovery_error =
  ReadGenerationFailed
  | NoValidManifest generation
  | ErrRecoveryImpossible
  | WriteCurrentFailed
  | SliceBoundsPanic

record RecoveryResult =
  res_Generation :: generation
  res_Manifest :: "Manifest option"
  OrphansRemoved :: "string list"
  ManifestsRemoved :: "generation list"
  TmpFilesRemoved :: "string list"
  FellBack :: bool
  FellBackFrom :: generation

definition ReadCurrentGeneration :: "IndexDir \<Rightarrow> recovery_error + generation" where
  "ReadCurrentGeneration dir =
     (case manifest_current dir of
        NoFile \<Rightarrow> Inr 0
      | Holds g \<Rightarrow> Inr g
      | Unparseable \<Rightarrow> Inl ReadGenerationFailed)"

definition WriteCurrentGeneration :: "IndexDir \<Rightarrow> generation \<Rightarrow> recovery_error + IndexDir" where
  "WriteCurrentGeneration dir g =
     (if write_current_fails dir then Inl WriteCurrentFailed
      else Inr (dir\<lparr>manifest_current := Holds g\<rparr>))"

text \<open>\<^verbatim>\<open>LoadManifest\<close>: \<open>None\<close> stands for any error (not found, unreadable, corrupt).\<close>

definition LoadManifest :: "IndexDir \<Rightarrow> generation \<Rightarrow> Manifest option" where
  "LoadManifest dir g =
     (case map_of (manifests dir) g of
        None \<Rightarrow> None
      | Some Corrupt \<Rightarrow> None
      | Some (Intact m) \<Rightarrow> Some m)"

lemma generation_pred_less: "(1::generation) \<le> g \<Longrightarrow> unat (g - 1) < unat g"
  by (metis One_nat_def diff_less less_numeral_extra(1) unat_minus_one unsigned_eq_0_iff
      word_le_0_iff word_less_eq_iff_unsigned zero_less_iff_neq_zero unat_1 not_one_le_zero)

text \<open>The loop \<^verbatim>\<open>for gen := generation; gen >= 1; gen-- { ... }\<close> of
  \<^verbatim>\<open>LoadManifestWithFallback\<close>, from the loop variable \<open>g\<close> on.\<close>

function fallback_loop :: "IndexDir \<Rightarrow> generation \<Rightarrow> generation
    \<Rightarrow> recovery_error + (Manifest \<times> generation)" where
  "fallback_loop dir requested g =
     (if g \<ge> 1 then
        (case LoadManifest dir g of
           Some m \<Rightarrow> Inr (m, g)
         | None \<Rightarrow> fallback_loop dir requested (g - 1))
      else Inl (NoValidManifest requested))"
  by pat_completeness auto
termination
  by (relation "measure (\<lambda>(dir, requested, g). unat g)") (auto simp: generation_pred_less)

definition LoadManifestWithFallback :: "IndexDir \<Rightarrow> generation
    \<Rightarrow> recovery_error + (Manifest \<times> generation)" where
  "LoadManifestWithFallback dir g = fallback_loop dir g g"

definition step1ReadGeneration :: "IndexDir \<Rightarrow> recovery_error + generation" where
  "step1ReadGeneration dir = ReadCurrentGeneration dir"

text \<open>\<^verbatim>\<open>step2LoadManifest\<close> returns the manifest, its generation and the flag \<^verbatim>\<open>fellBack\<close>.\<close>

definition step2LoadManifest :: "IndexDir \<Rightarrow> generation
    \<Rightarrow> recovery_error + (Manifest \<times> generation \<times> bool)" where
  "step2LoadManifest dir g =
     (case LoadManifestWithFallback dir g of
        Inl e \<Rightarrow> Inl e
      | Inr (m, actualGen) \<Rightarrow> Inr (m, actualGen, actualGen \<noteq> g))"

text \<open>\<^verbatim>\<open>VerifyFileChecksum\<close> fails when the file is missing or hashes differently.\<close>

definition files_verify :: "(string \<times> string) list \<Rightarrow> (string \<times> string) list \<Rightarrow> bool" where
  "files_verify actual expected \<longleftrightarrow>
     list_all (\<lambda>(name, checksum). map_of actual name = Some checksum) expected"

fun step3VerifySegments :: "IndexDir \<Rightarrow> SegmentMeta list \<Rightarrow> bool \<Rightarrow> string list" where
  "step3VerifySegments dir [] verifyChecksums = []"
| "step3VerifySegments dir (seg # segs) verifyChecksums =
     (case map_of (segment_dirs dir) (seg_ID seg) of
        None \<Rightarrow> seg_ID seg # step3VerifySegments dir segs verifyChecksums
      | Some actual \<Rightarrow>
          if verifyChecksums \<and> \<not> files_verify actual (seg_Files seg)
          then seg_ID seg # step3VerifySegments dir segs verifyChecksums
          else step3VerifySegments dir segs verifyChecksums)"

text \<open>The loop \<^verbatim>\<open>for gen := currentGen - 1; gen >= 1; gen-- { ... }\<close> of
  \<^verbatim>\<open>step4HandleCorruptSegments\<close>, from the loop variable \<open>g\<close> on.\<close>

function step4_loop :: "IndexDir \<Rightarrow> generation \<Rightarrow> bool \<Rightarrow> recovery_error + (Manifest \<times> generation)" where
  "step4_loop dir g verifyChecksums =
     (if g \<ge> 1 then
        (case LoadManifest dir g of
           None \<Rightarrow> step4_loop dir (g - 1) verifyChecksums
         | Some m \<Rightarrow>
             if step3VerifySegments dir (man_Segments m) verifyChecksums = [] then Inr (m, g)
             else step4_loop dir (g - 1) verifyChecksums)
      else Inl ErrRecoveryImpossible)"
  by pat_completeness auto
termination
  by (relation "measure (\<lambda>(dir, g, verifyChecksums). unat g)") (auto simp: generation_pred_less)

definition step4HandleCorruptSegments :: "IndexDir \<Rightarrow> generation \<Rightarrow> bool
    \<Rightarrow> recovery_error + (Manifest \<times> generation)" where
  "step4HandleCorruptSegments dir currentGen verifyChecksums =
     step4_loop dir (currentGen - 1) verifyChecksums"

definition step5CleanTmp :: "IndexDir \<Rightarrow> string list \<times> IndexDir" where
  "step5CleanTmp dir = (tmp_entries dir, dir\<lparr>tmp_entries := []\<rparr>)"

definition step6IdentifyOrphans :: "IndexDir \<Rightarrow> Manifest \<Rightarrow> string list" where
  "step6IdentifyOrphans dir manifest =
     filter (\<lambda>name. name \<notin> set (map seg_ID (man_Segments manifest))) (map fst (segment_dirs dir))"

definition step7CleanOrphans :: "IndexDir \<Rightarrow> string list \<Rightarrow> IndexDir" where
  "step7CleanOrphans dir orphans =
     dir\<lparr>segment_dirs := filter (\<lambda>(name, files). name \<notin> set orphans) (segment_dirs dir)\<rparr>"

text \<open>\<^verbatim>\<open>step8CleanOldManifests\<close> keeps the \<^verbatim>\<open>1 + retention\<close> highest generations found in
  \<^verbatim>\<open>manifests/\<close>. \<^verbatim>\<open>retention\<close> and \<^verbatim>\<open>keep\<close> are Go \<^verbatim>\<open>int\<close>s, 64 bits wide, and the
  addition wraps: \<open>int_add\<close>. Slicing with a negative \<^verbatim>\<open>keep\<close> panics.\<close>

definition int_add :: "int \<Rightarrow> int \<Rightarrow> int" where
  "int_add a b = sint (word_of_int a + word_of_int b :: 64 word)"

definition step8CleanOldManifests :: "IndexDir \<Rightarrow> generation \<Rightarrow> int
    \<Rightarrow> recovery_error + (generation list \<times> IndexDir)" where
  "step8CleanOldManifests dir currentGen retention =
     (let generations = rev (sort (map fst (manifests dir)));
          keep = int_add 1 retention
      in if keep > int (length generations) then Inr ([], dir)
         else if keep < 0 then Inl SliceBoundsPanic
         else
           (let toRemove = drop (nat keep) generations
            in Inr (toRemove,
                    dir\<lparr>manifests := filter (\<lambda>(g, f). g \<notin> set toRemove) (manifests dir)\<rparr>)))"

definition empty_result :: RecoveryResult where
  "empty_result =
     \<lparr>res_Generation = 0, res_Manifest = None, OrphansRemoved = [], ManifestsRemoved = [],
      TmpFilesRemoved = [], FellBack = False, FellBackFrom = 0\<rparr>"

text \<open>Steps 5 to 9, shared by both ways through steps 2 to 4.\<close>

definition finish_recovery :: "IndexDir \<Rightarrow> Options \<Rightarrow> RecoveryResult \<Rightarrow> Manifest \<Rightarrow> generation
    \<Rightarrow> (recovery_error + RecoveryResult) \<times> IndexDir" where
  "finish_recovery dir opts result manifest g =
     (let (removed, dir5) = step5CleanTmp dir;
          result5 = result\<lparr>TmpFilesRemoved := removed\<rparr>;
          orphans = step6IdentifyOrphans dir5 manifest;
          dir7 = (if orphans \<noteq> [] then step7CleanOrphans dir5 orphans else dir5);
          result7 = (if orphans \<noteq> [] then result5\<lparr>OrphansRemoved := orphans\<rparr> else result5)
      in case step8CleanOldManifests dir7 g (ManifestRetention opts) of
           Inl e \<Rightarrow> (Inl e, dir7)
         | Inr (removedManifests, dir8) \<Rightarrow>
             (Inr (result7\<lparr>ManifestsRemoved := removedManifests,
                           res_Generation := g, res_Manifest := Some manifest\<rparr>), dir8))"

definition Recover :: "IndexDir \<Rightarrow> Options \<Rightarrow> (recovery_error + RecoveryResult) \<times> IndexDir" where
  "Recover dir opts =
     (case step1ReadGeneration dir of
        Inl e \<Rightarrow> (Inl e, dir)
      | Inr g0 \<Rightarrow>
          if g0 = 0 then
            (let (removed, dir5) = step5CleanTmp dir
             in (Inr (empty_result\<lparr>TmpFilesRemoved := removed, res_Generation := 0\<rparr>), dir5))
          else
            (case step2LoadManifest dir g0 of
               Inl e \<Rightarrow> (Inl e, dir)
             | Inr (manifest, actualGen, fellBack) \<Rightarrow>
                 (let result2 = (if fellBack
                                 then empty_result\<lparr>FellBack := True, FellBackFrom := g0\<rparr>
                                 else empty_result);
                      g2 = (if fellBack then actualGen else g0);
                      corruptSegments =
                        step3VerifySegments dir (man_Segments manifest) (VerifySegmentChecksums opts)
                  in if corruptSegments \<noteq> [] then
                       (case step4HandleCorruptSegments dir g2 (VerifySegmentChecksums opts) of
                          Inl e \<Rightarrow> (Inl e, dir)
                        | Inr (manifest4, g4) \<Rightarrow>
                            (let result4 = result2\<lparr>FellBack := True, FellBackFrom := g2\<rparr>
                             in case WriteCurrentGeneration dir g4 of
                                  Inl e \<Rightarrow> (Inl e, dir)
                                | Inr dir4 \<Rightarrow> finish_recovery dir4 opts result4 manifest4 g4))
                     else finish_recovery dir opts result2 manifest g2)))"

section \<open>Postings iterators (package engine)\<close>

text \<open>
  Doc ids and frequencies are \<^verbatim>\<open>uint32\<close>, the cursor \<^verbatim>\<open>pos\<close> is a Go \<^verbatim>\<open>int\<close> that starts
  at -1. An iterator is a mutable object: every method of the model returns the updated
  iterator next to its result.

  \<^verbatim>\<open>DocID\<close> indexes \<^verbatim>\<open>docIDs[pos]\<close> and panics in Go when \<^verbatim>\<open>pos\<close> is out of range. The
  composite iterators call it only on a child whose last \<^verbatim>\<open>Next\<close> or \<^verbatim>\<open>Advance\<close> returned
  true (lemmas \<open>slice_Next_no_panic\<close> and \<open>slice_Advance_no_panic\<close> show that it does not
  panic then) and, inside the heap, on children for which this held when they were
  stored.

  The composite iterators hold their children as distinct objects. They are modelled
  twice. First over slice iterators as children, the only leaf implementation of
  \<^verbatim>\<open>PostingsIterator\<close> in the source: there every method is a total function. Then over
  any \<^verbatim>\<open>PostingsIterator\<close> as a child, composite ones included, with the same method
  bodies run on fuel.
\<close>

type_synonym docid = "32 word"

record SlicePostingsIterator =
  docIDs :: "docid list"
  freqs :: "32 word list option"
  pos :: int

definition NewSlicePostingsIterator :: "docid list \<Rightarrow> 32 word list option \<Rightarrow> SlicePostingsIterator" where
  "NewSlicePostingsIterator ds fs = \<lparr>docIDs = ds, freqs = fs, pos = - 1\<rparr>"

definition slice_Next :: "SlicePostingsIterator \<Rightarrow> bool \<times> SlicePostingsIterator" where
  "slice_Next it =
     (let it' = it\<lparr>pos := pos it + 1\<rparr>
      in (pos it' < int (length (docIDs it')), it'))"

text \<open>\<^verbatim>\<open>docIDs[pos]\<close> panics when the cursor is out of range; \<open>slice_DocID\<close> is the doc id
  returned when it is in range.\<close>

definition slice_DocID_panics :: "SlicePostingsIterator \<Rightarrow> bool" where
  "slice_DocID_panics it \<longleftrightarrow> pos it < 0 \<or> int (length (docIDs it)) \<le> pos it"

definition slice_DocID :: "SlicePostingsIterator \<Rightarrow> docid" where
  "slice_DocID it = docIDs it ! nat (pos it)"

text \<open>\<^verbatim>\<open>Freq\<close> returns 1 without frequencies or with the cursor at or past their end;
  \<^verbatim>\<open>freqs[pos]\<close> panics while the cursor is still -1: the result \<open>None\<close>.\<close>

definition slice_Freq :: "SlicePostingsIterator \<Rightarrow> 32 word option" where
  "slice_Freq it =
     (case freqs it of
        None \<Rightarrow> Some 1
      | Some fs \<Rightarrow>
          if pos it \<ge> int (length fs) then Some 1
          else if pos it < 0 then None
          else Some (fs ! nat (pos it)))"

text \<open>The \<^verbatim>\<open>for\<close> loop of \<^verbatim>\<open>Advance\<close> with the two statements that follow it.\<close>

function advance_loop :: "SlicePostingsIterator \<Rightarrow> docid \<Rightarrow> bool \<times> SlicePostingsIterator" where
  "advance_loop it t =
     (if pos it + 1 < int (length (docIDs it)) then
        (let it' = it\<lparr>pos := pos it + 1\<rparr>
         in if docIDs it' ! nat (pos it') \<ge> t then (True, it') else advance_loop it' t)
      else (False, it\<lparr>pos := int (length (docIDs it))\<rparr>))"
  by pat_completeness auto
termination
  by (relation "measure (\<lambda>(it, t). nat (int (length (docIDs it)) - pos it))") auto

declare advance_loop.simps [simp del]

definition slice_Advance :: "SlicePostingsIterator \<Rightarrow> docid \<Rightarrow> bool \<times> SlicePostingsIterator" where
  "slice_Advance it t =
     (if pos it \<ge> 0 \<and> pos it < int (length (docIDs it)) \<and> docIDs it ! nat (pos it) \<ge> t
      then (True, it)
      else advance_loop it t)"

definition slice_Cost :: "SlicePostingsIterator \<Rightarrow> int" where
  "slice_Cost it =
     (let remaining = int (length (docIDs it)) - pos it - 1
      in if remaining < 0 then 0 else remaining)"

subsection \<open>Conjunction over slice iterators\<close>

text \<open>
  \<open>SliceConjunction\<close> is a \<^verbatim>\<open>ConjunctionIterator\<close> all of whose children are slice
  iterators, and \<open>NewSliceConjunction\<close> is \<^verbatim>\<open>NewConjunctionIterator\<close> on such children.
  \<^verbatim>\<open>children\<close> is the cost-sorted slice and \<^verbatim>\<open>lead\<close> points at its first element; the
  model keeps the lead and the remaining children \<^verbatim>\<open>children[1:]\<close> apart, which is what
  the test \<^verbatim>\<open>child == c.lead\<close> in \<^verbatim>\<open>align\<close> separates. \<^verbatim>\<open>sort.Slice\<close> is not stable; the
  model sorts stably by cost, and the correctness lemma is stated for every
  arrangement of the children.
\<close>

record SliceConjunction =
  lead :: SlicePostingsIterator
  others :: "SlicePostingsIterator list"
  current :: docid

definition conj_of_sorted :: "SlicePostingsIterator list \<Rightarrow> SliceConjunction" where
  "conj_of_sorted srt = \<lparr>lead = hd srt, others = tl srt, current = 0\<rparr>"

text \<open>\<^verbatim>\<open>sorted[0]\<close> panics on an empty slice: the result \<open>None\<close>.\<close>

definition NewSliceConjunction :: "SlicePostingsIterator list \<Rightarrow> SliceConjunction option" where
  "NewSliceConjunction children =
     (if children = [] then None
      else Some (conj_of_sorted (sort_key slice_Cost children)))"

text \<open>One pass of the inner \<^verbatim>\<open>for\<close> loop of \<^verbatim>\<open>align\<close> over the children other than the
  lead: a child is exhausted (\<^verbatim>\<open>return false\<close>), a child landed past the target
  (\<^verbatim>\<open>break\<close> with that doc id), or all are aligned.\<close>

datatype scan_result = Exhausted | Past docid | AllAligned

fun scan_children :: "docid \<Rightarrow> SlicePostingsIterator list
    \<Rightarrow> scan_result \<times> SlicePostingsIterator list" where
  "scan_children t [] = (AllAligned, [])"
| "scan_children t (child # rest) =
     (case slice_Advance child t of
        (False, child') \<Rightarrow> (Exhausted, child' # rest)
      | (True, child') \<Rightarrow>
          if slice_DocID child' > t then (Past (slice_DocID child'), child' # rest)
          else (case scan_children t rest of (r, rest') \<Rightarrow> (r, child' # rest')))"


lemma advance_loop_true:
  "advance_loop it t = (True, it') \<Longrightarrow>
     docIDs it' = docIDs it \<and> freqs it' = freqs it \<and> pos it < pos it'
     \<and> pos it' < int (length (docIDs it)) \<and> t \<le> docIDs it ! nat (pos it')"
proof (induction it t rule: advance_loop.induct)
  case (1 it t)
  from "1.prems" show ?case
    apply (subst (asm) advance_loop.simps)
    using "1.IH" by (fastforce simp: Let_def split: if_splits)
qed

lemma advance_loop_false:
  "advance_loop it t = (False, it') \<Longrightarrow>
     docIDs it' = docIDs it \<and> freqs it' = freqs it \<and> pos it' = int (length (docIDs it))"
proof (induction it t rule: advance_loop.induct)
  case (1 it t)
  from "1.prems" show ?case
    apply (subst (asm) advance_loop.simps)
    using "1.IH" by (fastforce simp: Let_def split: if_splits)
qed

lemma slice_Advance_ge:
  "slice_Advance it t = (True, it') \<Longrightarrow>
     docIDs it' = docIDs it \<and> freqs it' = freqs it \<and> pos it' < int (length (docIDs it'))
     \<and> t \<le> slice_DocID it' \<and> pos it \<le> pos it'"
  unfolding slice_Advance_def slice_DocID_def
  by (auto split: if_splits dest!: advance_loop_true)

lemma slice_Advance_valid:
  "slice_Advance it t = (True, it') \<Longrightarrow> - 1 \<le> pos it \<Longrightarrow>
     0 \<le> pos it' \<and> pos it' < int (length (docIDs it'))"
  unfolding slice_Advance_def
  by (auto split: if_splits dest!: advance_loop_true)

lemma slice_Next_valid:
  "slice_Next it = (True, it') \<Longrightarrow> - 1 \<le> pos it \<Longrightarrow>
     docIDs it' = docIDs it \<and> 0 \<le> pos it' \<and> pos it' < int (length (docIDs it'))"
  by (auto simp: slice_Next_def Let_def)

lemma slice_Next_no_panic:
  "slice_Next it = (True, it') \<Longrightarrow> - 1 \<le> pos it \<Longrightarrow> \<not> slice_DocID_panics it'"
  using slice_Next_valid [of it it'] by (auto simp: slice_DocID_panics_def)

lemma slice_Advance_no_panic:
  "slice_Advance it t = (True, it') \<Longrightarrow> - 1 \<le> pos it \<Longrightarrow> \<not> slice_DocID_panics it'"
  using slice_Advance_valid [of it t it'] by (auto simp: slice_DocID_panics_def)

text \<open>\<^verbatim>\<open>align\<close>: the outer \<^verbatim>\<open>for\<close> loop. Each restart carries a strictly larger target.\<close>

function align :: "SliceConjunction \<Rightarrow> docid \<Rightarrow> bool \<times> SliceConjunction" where
  "align c t =
     (case scan_children t (others c) of
        (Exhausted, os) \<Rightarrow> (False, c\<lparr>others := os\<rparr>)
      | (AllAligned, os) \<Rightarrow> (True, c\<lparr>others := os, current := t\<rparr>)
      | (Past t', os) \<Rightarrow>
          (case slice_Advance (lead c) t' of
             (False, l') \<Rightarrow> (False, c\<lparr>others := os, lead := l'\<rparr>)
           | (True, l') \<Rightarrow> align (c\<lparr>others := os, lead := l'\<rparr>) (slice_DocID l')))"
  by pat_completeness auto

lemma scan_children_Past: "scan_children t cs = (Past t', cs') \<Longrightarrow> t < t'"
  by (induction t cs arbitrary: cs' rule: scan_children.induct)
     (auto split: prod.splits bool.splits if_splits)

lemma align_measure:
  "scan_children t cs = (Past t', os) \<Longrightarrow> slice_Advance l t' = (True, l') \<Longrightarrow>
     (2::nat) ^ 32 - unat (slice_DocID l') < 2 ^ 32 - unat t"
proof -
  assume s: "scan_children t cs = (Past t', os)" and a: "slice_Advance l t' = (True, l')"
  from s have "t < t'" by (rule scan_children_Past)
  moreover from a have "t' \<le> slice_DocID l'"
    using slice_Advance_ge by blast
  ultimately have "unat t < unat (slice_DocID l')"
    by (simp add: word_less_nat_alt word_le_nat_alt)
  moreover have "unat (slice_DocID l') < 2 ^ 32"
    using unsigned_less [of "slice_DocID l'"] by simp
  ultimately show ?thesis by simp
qed

termination align
  apply (relation "measure (\<lambda>(c, t). 2 ^ 32 - unat t)")
   apply simp
  apply (simp only: in_measure prod.case)
  apply (rule align_measure)
   apply (erule sym [THEN trans])
  apply simp
  apply simp
  done

declare align.simps [simp del]

definition conj_Next :: "SliceConjunction \<Rightarrow> bool \<times> SliceConjunction" where
  "conj_Next c =
     (case slice_Next (lead c) of
        (False, l') \<Rightarrow> (False, c\<lparr>lead := l'\<rparr>)
      | (True, l') \<Rightarrow> align (c\<lparr>lead := l'\<rparr>) (slice_DocID l'))"

definition conj_DocID :: "SliceConjunction \<Rightarrow> docid" where
  "conj_DocID c = current c"

definition conj_Freq :: "SliceConjunction \<Rightarrow> 32 word option" where
  "conj_Freq c = slice_Freq (lead c)"

definition conj_Advance :: "SliceConjunction \<Rightarrow> docid \<Rightarrow> bool \<times> SliceConjunction" where
  "conj_Advance c t =
     (case slice_Advance (lead c) t of
        (False, l') \<Rightarrow> (False, c\<lparr>lead := l'\<rparr>)
      | (True, l') \<Rightarrow> align (c\<lparr>lead := l'\<rparr>) (slice_DocID l'))"

definition conj_Cost :: "SliceConjunction \<Rightarrow> int" where
  "conj_Cost c = slice_Cost (lead c)"

lemma slice_Advance_docIDs: "slice_Advance it t = (b, it') \<Longrightarrow> docIDs it' = docIDs it"
  unfolding slice_Advance_def
  by (cases b) (auto split: if_splits dest: advance_loop_true advance_loop_false)

lemma align_lead:
  "align c t = (b, c') \<Longrightarrow>
     docIDs (lead c') = docIDs (lead c)
     \<and> (b \<longrightarrow> pos (lead c) \<le> pos (lead c')
          \<and> (pos (lead c) < int (length (docIDs (lead c)))
               \<longrightarrow> pos (lead c') < int (length (docIDs (lead c)))))"
proof (induction c t arbitrary: b c' rule: align.induct)
  case (1 c t)
  obtain r os where sc: "scan_children t (others c) = (r, os)"
    by (cases "scan_children t (others c)")
  show ?case
  proof (cases r)
    case Exhausted
    with sc "1.prems" show ?thesis
      by (subst (asm) align.simps) auto
  next
    case AllAligned
    with sc "1.prems" show ?thesis
      by (subst (asm) align.simps) auto
  next
    case (Past t')
    obtain ok l' where adv: "slice_Advance (lead c) t' = (ok, l')"
      by (cases "slice_Advance (lead c) t'")
    show ?thesis
    proof (cases ok)
      case False
      with sc Past adv "1.prems" slice_Advance_docIDs [OF adv] show ?thesis
        by (subst (asm) align.simps) auto
    next
      case True
      with sc Past adv "1.prems"
      have rec: "align (c\<lparr>others := os, lead := l'\<rparr>) (slice_DocID l') = (b, c')"
        by (subst (asm) align.simps) auto
      from adv True have "slice_Advance (lead c) t' = (True, l')" by simp
      from slice_Advance_ge [OF this]
      have l': "docIDs l' = docIDs (lead c)" "pos (lead c) \<le> pos l'"
        "pos l' < int (length (docIDs l'))"
        by auto
      have "docIDs (lead c') = docIDs (lead (c\<lparr>others := os, lead := l'\<rparr>))
        \<and> (b \<longrightarrow> pos (lead (c\<lparr>others := os, lead := l'\<rparr>)) \<le> pos (lead c')
          \<and> (pos (lead (c\<lparr>others := os, lead := l'\<rparr>))
                 < int (length (docIDs (lead (c\<lparr>others := os, lead := l'\<rparr>))))
               \<longrightarrow> pos (lead c')
                 < int (length (docIDs (lead (c\<lparr>others := os, lead := l'\<rparr>))))))"
        using sc Past adv True rec by (intro "1.IH") auto
      with l' show ?thesis by auto
    qed
  qed
qed

lemma conj_Next_measure:
  assumes "conj_Next c = (True, c')"
  shows "nat (int (length (docIDs (lead c'))) - pos (lead c'))
           < nat (int (length (docIDs (lead c))) - pos (lead c))"
proof -
  obtain ok l' where n: "slice_Next (lead c) = (ok, l')"
    by (cases "slice_Next (lead c)")
  with assms have ok: "ok" and al: "align (c\<lparr>lead := l'\<rparr>) (slice_DocID l') = (True, c')"
    by (auto simp: conj_Next_def split: bool.splits)
  from n ok have l': "docIDs l' = docIDs (lead c)" "pos l' = pos (lead c) + 1"
    "pos l' < int (length (docIDs (lead c)))"
    by (auto simp: slice_Next_def Let_def)
  from align_lead [OF al] l'
  have "docIDs (lead c') = docIDs (lead c)" "pos l' \<le> pos (lead c')"
    "pos (lead c') < int (length (docIDs (lead c)))"
    by auto
  with l' show ?thesis by simp
qed

text \<open>Repeated \<^verbatim>\<open>Next\<close> until it returns false, collecting \<^verbatim>\<open>DocID\<close> after each success.\<close>

function conj_drain :: "SliceConjunction \<Rightarrow> docid list" where
  "conj_drain c =
     (case conj_Next c of
        (False, c') \<Rightarrow> []
      | (True, c') \<Rightarrow> conj_DocID c' # conj_drain c')"
  by pat_completeness auto
termination
  apply (relation "measure (\<lambda>c. nat (int (length (docIDs (lead c))) - pos (lead c)))")
   apply simp
  apply (simp only: in_measure)
  apply (rule conj_Next_measure)
  apply simp
  done

declare conj_drain.simps [simp del]

subsection \<open>Disjunction over slice iterators\<close>

text \<open>
  A \<^verbatim>\<open>DisjunctionIterator\<close> whose children are slice iterators. The fields \<^verbatim>\<open>h\<close> and
  \<^verbatim>\<open>current\<close> are \<open>dh\<close> and \<open>dcurrent\<close> here. A child is mutated in place through
  \<^verbatim>\<open>top := d.h[0]\<close>, which the model writes back into slot 0 before the heap is repaired.
\<close>

record DisjunctionIterator =
  dh :: "SlicePostingsIterator list"
  dcurrent :: docid

definition iterLess :: "SlicePostingsIterator \<Rightarrow> SlicePostingsIterator \<Rightarrow> bool" where
  "iterLess a b \<longleftrightarrow> slice_DocID a < slice_DocID b"

text \<open>The loop of the constructor: keep the children whose first \<^verbatim>\<open>Next\<close> succeeds.\<close>

fun init_children :: "SlicePostingsIterator list \<Rightarrow> SlicePostingsIterator list" where
  "init_children [] = []"
| "init_children (child # children) =
     (case slice_Next child of
        (True, child') \<Rightarrow> child' # init_children children
      | (False, child') \<Rightarrow> init_children children)"

definition NewDisjunctionIterator :: "SlicePostingsIterator list \<Rightarrow> DisjunctionIterator" where
  "NewDisjunctionIterator children =
     \<lparr>dh = heap_Init iterLess (init_children children), dcurrent = 0\<rparr>"

text \<open>The number of \<^verbatim>\<open>Next\<close> calls the children in the heap can still answer, plus one
  per child: the measure under which the loops below terminate.\<close>

definition heap_weight :: "SlicePostingsIterator list \<Rightarrow> nat" where
  "heap_weight hp = (\<Sum>it\<leftarrow>hp. Suc (nat (int (length (docIDs it)) - pos it)))"

lemma heap_weight_mset:
  assumes "mset hp = mset hp'"
  shows "heap_weight hp = heap_weight hp'"
proof -
  let ?f = "\<lambda>it. Suc (nat (int (length (docIDs it)) - pos it))"
  have "sum_list (map ?f hp) = sum_mset (image_mset ?f (mset hp))"
    by (simp only: mset_map [symmetric] sum_mset_sum_list)
  also have "\<dots> = sum_mset (image_mset ?f (mset hp'))"
    by (simp only: assms)
  also have "\<dots> = sum_list (map ?f hp')"
    by (simp only: mset_map [symmetric] sum_mset_sum_list)
  finally show ?thesis by (simp only: heap_weight_def)
qed


lemma heap_weight_update0:
  "hp \<noteq> [] \<Longrightarrow>
     heap_weight (hp[0 := x]) + Suc (nat (int (length (docIDs (hp ! 0))) - pos (hp ! 0)))
       = heap_weight hp + Suc (nat (int (length (docIDs x)) - pos x))"
  by (cases hp) (simp_all add: heap_weight_def)

lemma slice_Next_eq:
  "slice_Next it = (b, it') \<Longrightarrow>
     it' = it\<lparr>pos := pos it + 1\<rparr> \<and> (b \<longleftrightarrow> pos it + 1 < int (length (docIDs it)))"
  by (auto simp: slice_Next_def Let_def)


lemma next_step_weight:
  assumes "hp \<noteq> []" and "slice_Next (hp ! 0) = (b, top')"
  shows "(b \<longrightarrow> heap_weight (hp[0 := top']) < heap_weight hp)
    \<and> heap_weight (hp[0 := top']) \<le> heap_weight hp"
proof -
  define old where "old = nat (int (length (docIDs (hp ! 0))) - pos (hp ! 0))"
  define new where "new = nat (int (length (docIDs top')) - pos top')"
  from slice_Next_eq [OF assms(2)]
  have t: "top' = (hp ! 0)\<lparr>pos := pos (hp ! 0) + 1\<rparr>"
    and b: "b \<longleftrightarrow> pos (hp ! 0) + 1 < int (length (docIDs (hp ! 0)))"
    by blast+
  from t have le: "new \<le> old"
    unfolding old_def new_def by simp
  from t b have lt: "b \<Longrightarrow> new < old"
    unfolding old_def new_def by simp
  from heap_weight_update0 [OF assms(1), of top']
  have e: "heap_weight (hp[0 := top']) + Suc old = heap_weight hp + Suc new"
    unfolding old_def new_def .
  from e le have "heap_weight (hp[0 := top']) \<le> heap_weight hp" by linarith
  moreover from e lt have "b \<longrightarrow> heap_weight (hp[0 := top']) < heap_weight hp" by auto
  ultimately show ?thesis by blast
qed

lemma heap_weight_Fix: "heap_weight (heap_Fix lt hp 0) = heap_weight hp"
  by (rule heap_weight_mset) (rule heap_Fix_0_mset)

lemma heap_weight_Pop:
  "heap_Pop lt hp = Some (x, hp') \<Longrightarrow> heap_weight hp' < heap_weight hp"
proof -
  assume "heap_Pop lt hp = Some (x, hp')"
  then have "mset (x # hp') = mset hp"
    using heap_Pop_mset by fastforce
  then have "heap_weight (x # hp') = heap_weight hp"
    by (rule heap_weight_mset)
  then show ?thesis by (simp add: heap_weight_def)
qed

lemma next_loop_measure_Fix:
  "hp \<noteq> [] \<Longrightarrow> (True, top') = slice_Next (hp ! 0) \<Longrightarrow>
     heap_weight (heap_Fix iterLess (hp[0 := top']) 0) < heap_weight hp"
  using next_step_weight [of hp True top'] by (simp add: heap_weight_Fix)

lemma next_loop_measure_Pop:
  "hp \<noteq> [] \<Longrightarrow> (b, top') = slice_Next (hp ! 0) \<Longrightarrow>
     heap_Pop iterLess (hp[0 := top']) = Some z \<Longrightarrow> (x, hp') = z \<Longrightarrow>
     heap_weight hp' < heap_weight hp"
  using next_step_weight [of hp b top'] heap_weight_Pop [of iterLess "hp[0 := top']" x hp']
  by auto

text \<open>The loop of \<^verbatim>\<open>Next\<close>: advance every child that stands at the current doc id.\<close>

function next_loop :: "docid \<Rightarrow> SlicePostingsIterator list \<Rightarrow> SlicePostingsIterator list option" where
  "next_loop cur hp =
     (if hp \<noteq> [] \<and> slice_DocID (hp ! 0) = cur then
        (case slice_Next (hp ! 0) of
           (True, top') \<Rightarrow> next_loop cur (heap_Fix iterLess (hp[0 := top']) 0)
         | (False, top') \<Rightarrow>
             (case heap_Pop iterLess (hp[0 := top']) of
                None \<Rightarrow> None
              | Some (x, hp') \<Rightarrow> next_loop cur hp'))
      else Some hp)"
  by pat_completeness auto
termination
  apply (relation "measure (\<lambda>(cur, hp). heap_weight hp)")
    apply simp
   apply (simp only: in_measure prod.case)
   apply (erule conjE)
   apply (erule (1) next_loop_measure_Fix)
  apply (simp only: in_measure prod.case)
  apply (erule conjE)
  apply (rule next_loop_measure_Pop)
     apply assumption
    apply assumption
   apply assumption
  apply assumption
  done

declare next_loop.simps [simp del]


definition disj_Next :: "DisjunctionIterator \<Rightarrow> (bool \<times> DisjunctionIterator) option" where
  "disj_Next d =
     (if dh d = [] then Some (False, d)
      else
        (let cur = slice_DocID (dh d ! 0)
         in case next_loop cur (dh d) of
              None \<Rightarrow> None
            | Some hp \<Rightarrow> Some (True, d\<lparr>dcurrent := cur, dh := hp\<rparr>)))"

definition disj_DocID :: "DisjunctionIterator \<Rightarrow> docid" where
  "disj_DocID d = dcurrent d"

definition disj_Freq :: "DisjunctionIterator \<Rightarrow> 32 word" where
  "disj_Freq d = 1"

definition disj_Cost :: "DisjunctionIterator \<Rightarrow> int" where
  "disj_Cost d = (\<Sum>it\<leftarrow>dh d. slice_Cost it)"

lemma advance_step_weight:
  assumes "hp \<noteq> []" and "slice_DocID (hp ! 0) < t" and "slice_Advance (hp ! 0) t = (b, top')"
  shows "(b \<longrightarrow> heap_weight (hp[0 := top']) < heap_weight hp)
    \<and> heap_weight (hp[0 := top']) \<le> heap_weight hp"
proof -
  define old where "old = nat (int (length (docIDs (hp ! 0))) - pos (hp ! 0))"
  define new where "new = nat (int (length (docIDs top')) - pos top')"
  from assms(2) have "\<not> t \<le> docIDs (hp ! 0) ! nat (pos (hp ! 0))"
    by (simp add: slice_DocID_def)
  with assms(3) have al: "advance_loop (hp ! 0) t = (b, top')"
    by (simp add: slice_Advance_def)
  have le: "new \<le> old" and lt: "b \<Longrightarrow> new < old"
  proof -
    show "new \<le> old"
    proof (cases b)
      case True
      with al advance_loop_true [of "hp ! 0" t top'] show ?thesis
        unfolding old_def new_def by auto
    next
      case False
      with al advance_loop_false [of "hp ! 0" t top'] show ?thesis
        unfolding old_def new_def by simp
    qed
    assume b
    with al advance_loop_true [of "hp ! 0" t top'] show "new < old"
      unfolding old_def new_def by auto
  qed
  from heap_weight_update0 [OF assms(1), of top']
  have e: "heap_weight (hp[0 := top']) + Suc old = heap_weight hp + Suc new"
    unfolding old_def new_def .
  from e le have "heap_weight (hp[0 := top']) \<le> heap_weight hp" by linarith
  moreover from e lt have "b \<longrightarrow> heap_weight (hp[0 := top']) < heap_weight hp" by auto
  ultimately show ?thesis by blast
qed

lemma advance_heap_measure_Fix:
  "hp \<noteq> [] \<Longrightarrow> slice_DocID (hp ! 0) < t \<Longrightarrow> (True, top') = slice_Advance (hp ! 0) t \<Longrightarrow>
     heap_weight (heap_Fix iterLess (hp[0 := top']) 0) < heap_weight hp"
  using advance_step_weight [of hp t True top'] by (simp add: heap_weight_Fix)

lemma advance_heap_measure_Pop:
  "hp \<noteq> [] \<Longrightarrow> slice_DocID (hp ! 0) < t \<Longrightarrow> (b, top') = slice_Advance (hp ! 0) t \<Longrightarrow>
     heap_Pop iterLess (hp[0 := top']) = Some z \<Longrightarrow> (x, hp') = z \<Longrightarrow>
     heap_weight hp' < heap_weight hp"
  using advance_step_weight [of hp t b top'] heap_weight_Pop [of iterLess "hp[0 := top']" x hp']
  by auto

text \<open>The loop of \<^verbatim>\<open>Advance\<close>: move every child that stands below the target.\<close>

function advance_heap :: "docid \<Rightarrow> SlicePostingsIterator list \<Rightarrow> SlicePostingsIterator list option" where
  "advance_heap t hp =
     (if hp \<noteq> [] \<and> slice_DocID (hp ! 0) < t then
        (case slice_Advance (hp ! 0) t of
           (True, top') \<Rightarrow> advance_heap t (heap_Fix iterLess (hp[0 := top']) 0)
         | (False, top') \<Rightarrow>
             (case heap_Pop iterLess (hp[0 := top']) of
                None \<Rightarrow> None
              | Some (x, hp') \<Rightarrow> advance_heap t hp'))
      else Some hp)"
  by pat_completeness auto
termination
  apply (relation "measure (\<lambda>(t, hp). heap_weight hp)")
    apply simp
   apply (simp only: in_measure prod.case)
   apply (erule conjE)
   apply (erule (2) advance_heap_measure_Fix)
  apply (simp only: in_measure prod.case)
  apply (erule conjE)
  apply (rule advance_heap_measure_Pop)
      apply assumption
     apply assumption
    apply assumption
   apply assumption
  apply assumption
  done

declare advance_heap.simps [simp del]

definition disj_Advance :: "DisjunctionIterator \<Rightarrow> docid \<Rightarrow> (bool \<times> DisjunctionIterator) option" where
  "disj_Advance d t =
     (case advance_heap t (dh d) of
        None \<Rightarrow> None
      | Some hp \<Rightarrow>
          if hp = [] then Some (False, d\<lparr>dh := hp\<rparr>)
          else Some (True, d\<lparr>dh := hp, dcurrent := slice_DocID (hp ! 0)\<rparr>))"

lemma next_loop_weight:
  "next_loop cur hp = Some hp' \<Longrightarrow> heap_weight hp' \<le> heap_weight hp"
proof (induction cur hp arbitrary: hp' rule: next_loop.induct)
  case (1 cur hp)
  show ?case
  proof (cases "hp \<noteq> [] \<and> slice_DocID (hp ! 0) = cur")
    case False
    with "1.prems" show ?thesis by (subst (asm) next_loop.simps) auto
  next
    case True
    obtain b top' where n: "slice_Next (hp ! 0) = (b, top')"
      by (cases "slice_Next (hp ! 0)")
    show ?thesis
    proof (cases b)
      case True
      with \<open>hp \<noteq> [] \<and> slice_DocID (hp ! 0) = cur\<close> n "1.prems"
      have "next_loop cur (heap_Fix iterLess (hp[0 := top']) 0) = Some hp'"
        by (subst (asm) next_loop.simps) auto
      from "1.IH"(1) [OF \<open>hp \<noteq> [] \<and> slice_DocID (hp ! 0) = cur\<close> n [symmetric] _ this] True
      have "heap_weight hp' \<le> heap_weight (heap_Fix iterLess (hp[0 := top']) 0)" by simp
      with next_loop_measure_Fix [of hp top'] n True \<open>hp \<noteq> [] \<and> slice_DocID (hp ! 0) = cur\<close>
      show ?thesis by simp
    next
      case False
      with \<open>hp \<noteq> [] \<and> slice_DocID (hp ! 0) = cur\<close> n "1.prems"
      obtain x hp1 where p: "heap_Pop iterLess (hp[0 := top']) = Some (x, hp1)"
        and r: "next_loop cur hp1 = Some hp'"
        by (subst (asm) next_loop.simps) (auto split: option.splits)
      from "1.IH"(2) [OF \<open>hp \<noteq> [] \<and> slice_DocID (hp ! 0) = cur\<close> n [symmetric] _ p refl r] False
      have "heap_weight hp' \<le> heap_weight hp1" by simp
      with next_loop_measure_Pop [of hp b top' "(x, hp1)" x hp1] n p
        \<open>hp \<noteq> [] \<and> slice_DocID (hp ! 0) = cur\<close>
      show ?thesis by simp
    qed
  qed
qed

lemma disj_Next_measure:
  assumes "disj_Next d = Some (True, d')"
  shows "heap_weight (dh d') < heap_weight (dh d)"
proof -
  let ?hp = "dh d"
  let ?cur = "slice_DocID (?hp ! 0)"
  from assms have ne: "?hp \<noteq> []" and nl: "next_loop ?cur ?hp = Some (dh d')"
    by (auto simp: disj_Next_def Let_def split: if_splits option.splits)
  obtain b top' where n: "slice_Next (?hp ! 0) = (b, top')"
    by (cases "slice_Next (?hp ! 0)")
  show ?thesis
  proof (cases b)
    case True
    with ne n nl have "next_loop ?cur (heap_Fix iterLess (?hp[0 := top']) 0) = Some (dh d')"
      by (subst (asm) next_loop.simps) auto
    from next_loop_weight [OF this] next_loop_measure_Fix [of ?hp top'] n True ne
    show ?thesis by simp
  next
    case False
    with ne n nl obtain x hp1 where p: "heap_Pop iterLess (?hp[0 := top']) = Some (x, hp1)"
      and r: "next_loop ?cur hp1 = Some (dh d')"
      by (subst (asm) next_loop.simps) (auto split: option.splits)
    from next_loop_weight [OF r] next_loop_measure_Pop [of ?hp b top' "(x, hp1)" x hp1] n p ne
    show ?thesis by simp
  qed
qed

text \<open>Repeated \<^verbatim>\<open>Next\<close> until it returns false, collecting \<^verbatim>\<open>DocID\<close> after each success;
  \<open>None\<close> if a call panics.\<close>

function disj_drain :: "DisjunctionIterator \<Rightarrow> docid list option" where
  "disj_drain d =
     (case disj_Next d of
        None \<Rightarrow> None
      | Some (False, d') \<Rightarrow> Some []
      | Some (True, d') \<Rightarrow> map_option (Cons (disj_DocID d')) (disj_drain d'))"
  by pat_completeness auto
termination
  apply (relation "measure (\<lambda>d. heap_weight (dh d))")
   apply simp
  apply (simp only: in_measure)
  apply (rule disj_Next_measure)
  apply simp
  done

declare disj_drain.simps [simp del]

subsection \<open>Composite iterators over any children\<close>

text \<open>
  The children of a \<^verbatim>\<open>ConjunctionIterator\<close> and of a \<^verbatim>\<open>DisjunctionIterator\<close> are values of
  the interface \<^verbatim>\<open>PostingsIterator\<close>, which the source implements three times: a child
  may itself be a conjunction or a disjunction. \<open>PostingsIterator\<close> is the sum of the
  three implementations, and \<open>it_Next\<close>, \<open>it_DocID\<close>, \<open>it_Freq\<close>, \<open>it_Advance\<close> and
  \<open>it_Cost\<close> are the methods of the interface, dispatching on the implementation as the
  method call of Go does. A conjunction keeps its lead and its other children
  apart, as above, and a disjunction is its heap and its current doc id.

  The methods of a composite iterator call the methods of its children inside loops, so
  \<open>it_Next\<close> and \<open>it_Advance\<close> are defined by recursion on a fuel that every call of a
  method and every turn of a loop consumes: \<open>OutOfFuel\<close> says that the fuel given did
  not suffice, \<open>Panic\<close> that the Go code panics (\<^verbatim>\<open>heap.Pop\<close> on an empty heap), and
  \<open>Ret\<close> carries the value returned next to the updated iterator.
\<close>

datatype PostingsIterator =
    SliceIt SlicePostingsIterator
  | ConjIt PostingsIterator "PostingsIterator list" docid
  | DisjIt "PostingsIterator list" docid

datatype 'a outcome = OutOfFuel | Panic | Ret 'a

fun it_DocID :: "PostingsIterator \<Rightarrow> docid" where
  "it_DocID (SliceIt s) = slice_DocID s"
| "it_DocID (ConjIt l os cur) = cur"
| "it_DocID (DisjIt hp cur) = cur"

fun it_Freq :: "PostingsIterator \<Rightarrow> 32 word option" where
  "it_Freq (SliceIt s) = slice_Freq s"
| "it_Freq (ConjIt l os cur) = it_Freq l"
| "it_Freq (DisjIt hp cur) = Some 1"

fun it_Cost :: "PostingsIterator \<Rightarrow> int" where
  "it_Cost (SliceIt s) = slice_Cost s"
| "it_Cost (ConjIt l os cur) = it_Cost l"
| "it_Cost (DisjIt hp cur) = (\<Sum>ch\<leftarrow>hp. it_Cost ch)"

text \<open>\<^verbatim>\<open>iterHeap.Less\<close>.\<close>

definition it_Less :: "PostingsIterator \<Rightarrow> PostingsIterator \<Rightarrow> bool" where
  "it_Less a b \<longleftrightarrow> it_DocID a < it_DocID b"

type_synonym next_fn = "PostingsIterator \<Rightarrow> (bool \<times> PostingsIterator) outcome"
type_synonym advance_fn = "PostingsIterator \<Rightarrow> docid \<Rightarrow> (bool \<times> PostingsIterator) outcome"

text \<open>The loops of the composite iterators, over the methods \<open>nxt\<close> and \<open>adv\<close> of the
  children. \<open>it_scan\<close> is one pass of the inner loop of \<^verbatim>\<open>align\<close> over the children other
  than the lead, and \<open>it_align\<close> is \<^verbatim>\<open>align\<close> for the conjunction with lead \<open>l\<close>, other
  children \<open>os\<close> and current doc id \<open>cur\<close>; \<open>it_next_loop\<close> and \<open>it_advance_heap\<close> are the
  loops of \<^verbatim>\<open>Next\<close> and \<^verbatim>\<open>Advance\<close> of the disjunction.\<close>

fun it_scan :: "advance_fn \<Rightarrow> docid \<Rightarrow> PostingsIterator list
    \<Rightarrow> (scan_result \<times> PostingsIterator list) outcome" where
  "it_scan adv t [] = Ret (AllAligned, [])"
| "it_scan adv t (child # rest) =
     (case adv child t of
        OutOfFuel \<Rightarrow> OutOfFuel
      | Panic \<Rightarrow> Panic
      | Ret (False, child') \<Rightarrow> Ret (Exhausted, child' # rest)
      | Ret (True, child') \<Rightarrow>
          if it_DocID child' > t then Ret (Past (it_DocID child'), child' # rest)
          else (case it_scan adv t rest of
                  OutOfFuel \<Rightarrow> OutOfFuel
                | Panic \<Rightarrow> Panic
                | Ret (r, rest') \<Rightarrow> Ret (r, child' # rest')))"

fun it_align :: "nat \<Rightarrow> advance_fn \<Rightarrow> PostingsIterator \<Rightarrow> PostingsIterator list \<Rightarrow> docid
    \<Rightarrow> docid \<Rightarrow> (bool \<times> PostingsIterator) outcome" where
  "it_align 0 adv l os cur t = OutOfFuel"
| "it_align (Suc n) adv l os cur t =
     (case it_scan adv t os of
        OutOfFuel \<Rightarrow> OutOfFuel
      | Panic \<Rightarrow> Panic
      | Ret (Exhausted, os') \<Rightarrow> Ret (False, ConjIt l os' cur)
      | Ret (AllAligned, os') \<Rightarrow> Ret (True, ConjIt l os' t)
      | Ret (Past t', os') \<Rightarrow>
          (case adv l t' of
             OutOfFuel \<Rightarrow> OutOfFuel
           | Panic \<Rightarrow> Panic
           | Ret (False, l') \<Rightarrow> Ret (False, ConjIt l' os' cur)
           | Ret (True, l') \<Rightarrow> it_align n adv l' os' cur (it_DocID l')))"

fun it_next_loop :: "nat \<Rightarrow> next_fn \<Rightarrow> docid \<Rightarrow> PostingsIterator list
    \<Rightarrow> PostingsIterator list outcome" where
  "it_next_loop 0 nxt cur hp = OutOfFuel"
| "it_next_loop (Suc n) nxt cur hp =
     (if hp \<noteq> [] \<and> it_DocID (hp ! 0) = cur then
        (case nxt (hp ! 0) of
           OutOfFuel \<Rightarrow> OutOfFuel
         | Panic \<Rightarrow> Panic
         | Ret (True, top') \<Rightarrow> it_next_loop n nxt cur (heap_Fix it_Less (hp[0 := top']) 0)
         | Ret (False, top') \<Rightarrow>
             (case heap_Pop it_Less (hp[0 := top']) of
                None \<Rightarrow> Panic
              | Some (x, hp') \<Rightarrow> it_next_loop n nxt cur hp'))
      else Ret hp)"

fun it_advance_heap :: "nat \<Rightarrow> advance_fn \<Rightarrow> docid \<Rightarrow> PostingsIterator list
    \<Rightarrow> PostingsIterator list outcome" where
  "it_advance_heap 0 adv t hp = OutOfFuel"
| "it_advance_heap (Suc n) adv t hp =
     (if hp \<noteq> [] \<and> it_DocID (hp ! 0) < t then
        (case adv (hp ! 0) t of
           OutOfFuel \<Rightarrow> OutOfFuel
         | Panic \<Rightarrow> Panic
         | Ret (True, top') \<Rightarrow> it_advance_heap n adv t (heap_Fix it_Less (hp[0 := top']) 0)
         | Ret (False, top') \<Rightarrow>
             (case heap_Pop it_Less (hp[0 := top']) of
                None \<Rightarrow> Panic
              | Some (x, hp') \<Rightarrow> it_advance_heap n adv t hp'))
      else Ret hp)"

text \<open>The bodies of \<^verbatim>\<open>Next\<close> and \<^verbatim>\<open>Advance\<close> of the three implementations, with \<open>n\<close> the
  fuel left for the loops and \<open>nxt\<close> and \<open>adv\<close> the methods the children answer to.\<close>

definition Next_body :: "nat \<Rightarrow> next_fn \<Rightarrow> advance_fn \<Rightarrow> next_fn" where
  "Next_body n nxt adv it =
     (case it of
        SliceIt s \<Rightarrow> (case slice_Next s of (b, s') \<Rightarrow> Ret (b, SliceIt s'))
      | ConjIt l os cur \<Rightarrow>
          (case nxt l of
             OutOfFuel \<Rightarrow> OutOfFuel
           | Panic \<Rightarrow> Panic
           | Ret (False, l') \<Rightarrow> Ret (False, ConjIt l' os cur)
           | Ret (True, l') \<Rightarrow> it_align n adv l' os cur (it_DocID l'))
      | DisjIt hp cur \<Rightarrow>
          if hp = [] then Ret (False, DisjIt hp cur)
          else
            (let cur' = it_DocID (hp ! 0)
             in case it_next_loop n nxt cur' hp of
                  OutOfFuel \<Rightarrow> OutOfFuel
                | Panic \<Rightarrow> Panic
                | Ret hp' \<Rightarrow> Ret (True, DisjIt hp' cur')))"

definition Advance_body :: "nat \<Rightarrow> next_fn \<Rightarrow> advance_fn \<Rightarrow> advance_fn" where
  "Advance_body n nxt adv it t =
     (case it of
        SliceIt s \<Rightarrow> (case slice_Advance s t of (b, s') \<Rightarrow> Ret (b, SliceIt s'))
      | ConjIt l os cur \<Rightarrow>
          (case adv l t of
             OutOfFuel \<Rightarrow> OutOfFuel
           | Panic \<Rightarrow> Panic
           | Ret (False, l') \<Rightarrow> Ret (False, ConjIt l' os cur)
           | Ret (True, l') \<Rightarrow> it_align n adv l' os cur (it_DocID l'))
      | DisjIt hp cur \<Rightarrow>
          (case it_advance_heap n adv t hp of
             OutOfFuel \<Rightarrow> OutOfFuel
           | Panic \<Rightarrow> Panic
           | Ret hp' \<Rightarrow>
               if hp' = [] then Ret (False, DisjIt hp' cur)
               else Ret (True, DisjIt hp' (it_DocID (hp' ! 0)))))"

text \<open>The two methods with fuel \<open>n\<close>, as a pair: with fuel \<open>n + 1\<close> a method runs its body
  and its children answer with fuel \<open>n\<close>.\<close>

primrec it_methods :: "nat \<Rightarrow> next_fn \<times> advance_fn" where
  "it_methods 0 = ((\<lambda>it. OutOfFuel), (\<lambda>it t. OutOfFuel))"
| "it_methods (Suc n) =
     (Next_body n (fst (it_methods n)) (snd (it_methods n)),
      Advance_body n (fst (it_methods n)) (snd (it_methods n)))"

definition it_Next :: "nat \<Rightarrow> next_fn" where
  "it_Next n = fst (it_methods n)"

definition it_Advance :: "nat \<Rightarrow> advance_fn" where
  "it_Advance n = snd (it_methods n)"

text \<open>\<^verbatim>\<open>NewConjunctionIterator\<close>: the children sorted by cost, the cheapest as the lead;
  \<^verbatim>\<open>sorted[0]\<close> panics on an empty slice.\<close>

definition it_NewConjunctionIterator :: "PostingsIterator list \<Rightarrow> PostingsIterator outcome" where
  "it_NewConjunctionIterator children =
     (if children = [] then Panic
      else (let srt = sort_key it_Cost children in Ret (ConjIt (hd srt) (tl srt) 0)))"

text \<open>\<^verbatim>\<open>NewDisjunctionIterator\<close>: the children whose first \<^verbatim>\<open>Next\<close> succeeds, as a heap.\<close>

fun it_init_children :: "nat \<Rightarrow> PostingsIterator list \<Rightarrow> PostingsIterator list outcome" where
  "it_init_children n [] = Ret []"
| "it_init_children n (child # children) =
     (case it_Next n child of
        OutOfFuel \<Rightarrow> OutOfFuel
      | Panic \<Rightarrow> Panic
      | Ret (b, child') \<Rightarrow>
          (case it_init_children n children of
             OutOfFuel \<Rightarrow> OutOfFuel
           | Panic \<Rightarrow> Panic
           | Ret rest \<Rightarrow> Ret (if b then child' # rest else rest)))"

definition it_NewDisjunctionIterator :: "nat \<Rightarrow> PostingsIterator list \<Rightarrow> PostingsIterator outcome" where
  "it_NewDisjunctionIterator n children =
     (case it_init_children n children of
        OutOfFuel \<Rightarrow> OutOfFuel
      | Panic \<Rightarrow> Panic
      | Ret hp \<Rightarrow> Ret (DisjIt (heap_Init it_Less hp) 0))"

text \<open>Repeated \<^verbatim>\<open>Next\<close> until it returns false, collecting \<^verbatim>\<open>DocID\<close> after each success.\<close>

fun it_drain :: "nat \<Rightarrow> PostingsIterator \<Rightarrow> docid list outcome" where
  "it_drain 0 it = OutOfFuel"
| "it_drain (Suc n) it =
     (case it_Next n it of
        OutOfFuel \<Rightarrow> OutOfFuel
      | Panic \<Rightarrow> Panic
      | Ret (False, it') \<Rightarrow> Ret []
      | Ret (True, it') \<Rightarrow>
          (case it_drain n it' of
             OutOfFuel \<Rightarrow> OutOfFuel
           | Panic \<Rightarrow> Panic
           | Ret ds \<Rightarrow> Ret (it_DocID it' # ds)))"

text \<open>The two methods, unfolded: without fuel nothing runs, and with fuel \<open>n + 1\<close> a method
  runs its body over children that answer with fuel \<open>n\<close>.\<close>

lemma it_Next_0 [code]: "it_Next 0 it = OutOfFuel"
  by (simp add: it_Next_def)

lemma it_Next_Suc [code]: "it_Next (Suc n) it = Next_body n (it_Next n) (it_Advance n) it"
  by (simp add: it_Next_def it_Advance_def)

lemma it_Advance_0 [code]: "it_Advance 0 it t = OutOfFuel"
  by (simp add: it_Advance_def)

lemma it_Advance_Suc [code]:
  "it_Advance (Suc n) it t = Advance_body n (it_Next n) (it_Advance n) it t"
  by (simp add: it_Next_def it_Advance_def)

subsection \<open>The doc ids still ahead of a cursor\<close>

text \<open>The doc ids a slice iterator has not passed yet: from the cursor on (from the
  start while the cursor is still -1).\<close>

definition avail :: "SlicePostingsIterator \<Rightarrow> docid set" where
  "avail it = set (drop (nat (pos it)) (docIDs it))"

definition ok_child :: "SlicePostingsIterator \<Rightarrow> bool" where
  "ok_child it \<longleftrightarrow> sorted (docIDs it) \<and> - 1 \<le> pos it"

text \<open>The doc ids that every iterator of a list still has ahead.\<close>

definition Inter_avail :: "SlicePostingsIterator list \<Rightarrow> docid set" where
  "Inter_avail cs = (\<Inter>c \<in> set cs. avail c)"


text \<open>The doc ids a conjunction has still to emit: those strictly after the cursor of
  the lead that every other child still has ahead.\<close>

definition remaining :: "SliceConjunction \<Rightarrow> docid set" where
  "remaining c =
     set (drop (nat (pos (lead c) + 1)) (docIDs (lead c))) \<inter> Inter_avail (others c)"

text \<open>The state of a conjunction between two calls of \<^verbatim>\<open>Next\<close>: strictly ascending
  doc ids in the lead, ascending doc ids in the other children, cursors not below -1.\<close>

definition conj_inv :: "SliceConjunction \<Rightarrow> bool" where
  "conj_inv c \<longleftrightarrow>
     sorted (docIDs (lead c)) \<and> distinct (docIDs (lead c)) \<and> - 1 \<le> pos (lead c)
     \<and> (\<forall>ch \<in> set (others c). ok_child ch)"

text \<open>For the disjunction: a child stored in the heap stands on a doc id; the heap is
  ordered by the current doc ids; the doc ids any child of the heap still has ahead.\<close>

definition valid_it :: "SlicePostingsIterator \<Rightarrow> bool" where
  "valid_it it \<longleftrightarrow> sorted (docIDs it) \<and> 0 \<le> pos it \<and> pos it < int (length (docIDs it))"

definition disj_inv :: "SlicePostingsIterator list \<Rightarrow> bool" where
  "disj_inv hp \<longleftrightarrow> heap_from slice_DocID 0 (length hp) hp \<and> (\<forall>it \<in> set hp. valid_it it)"

definition Union_avail :: "SlicePostingsIterator list \<Rightarrow> docid set" where
  "Union_avail hp = (\<Union>it \<in> set hp. avail it)"

section \<open>Properties of the snapshot manager\<close>

subsection \<open>Generation monotonicity\<close>

lemma UpdateGeneration_panics:
  "newG \<le> currentGeneration m \<Longrightarrow>
     UpdateGeneration m newG ids = (Inl (GenerationNotMonotonic (currentGeneration m) newG), m)"
  by (simp add: UpdateGeneration_def)

lemma UpdateGeneration_Inl:
  "UpdateGeneration m newG ids = (Inl p, m') \<Longrightarrow> m' = m"
  by (auto simp: UpdateGeneration_def Let_def split: if_splits prod.splits)

lemma UpdateGeneration_Inr:
  "UpdateGeneration m newG ids = (Inr r, m') \<Longrightarrow>
     currentGeneration m < newG \<and> currentGeneration m' = newG"
  by (auto simp: UpdateGeneration_def Let_def split: if_splits prod.splits)

lemma generations_after_bound:
  "\<forall>g \<in> set (generations_after m calls). currentGeneration m < g"
proof (induction calls arbitrary: m)
  case Nil
  show ?case by simp
next
  case (Cons c calls)
  obtain g ids where c: "c = (g, ids)" by (cases c)
  obtain res m' where u: "UpdateGeneration m g ids = (res, m')" by (cases "UpdateGeneration m g ids")
  show ?case
  proof (cases res)
    case (Inl p)
    with u have "m' = m" by (simp add: UpdateGeneration_Inl)
    with Cons.IH [of m] c u Inl show ?thesis by simp
  next
    case (Inr r)
    with u have lt: "currentGeneration m < currentGeneration m'"
      using UpdateGeneration_Inr by blast
    from Cons.IH [of m'] lt have "\<forall>x \<in> set (generations_after m' calls). currentGeneration m < x"
      by (meson less_trans)
    with c u Inr lt show ?thesis by simp
  qed
qed

lemma generations_after_sorted:
  "sorted_wrt (<) (generations_after m calls)"
proof (induction calls arbitrary: m)
  case Nil
  show ?case by simp
next
  case (Cons c calls)
  obtain g ids where c: "c = (g, ids)" by (cases c)
  obtain res m' where u: "UpdateGeneration m g ids = (res, m')" by (cases "UpdateGeneration m g ids")
  show ?case
    using c u Cons.IH [of m'] generations_after_bound [of m' calls]
    by (cases res) simp_all
qed

text \<open>
  Claim C8. A call of \<^verbatim>\<open>UpdateGeneration\<close> whose new generation is not above the current
  one panics and leaves the manager exactly as it was; a call that returns has moved the
  generation strictly upwards, to the requested value; hence along any sequence of calls
  (panicking ones recovered) the generations reported after the successful calls, led by
  the initial one, are strictly increasing.
\<close>

theorem UpdateGeneration_strictly_monotonic:
  "(newG \<le> currentGeneration m \<longrightarrow>
      UpdateGeneration m newG ids = (Inl (GenerationNotMonotonic (currentGeneration m) newG), m))
   \<and> (\<forall>r m'. UpdateGeneration m newG ids = (Inr r, m') \<longrightarrow>
         currentGeneration m < currentGeneration m' \<and> currentGeneration m' = newG)
   \<and> sorted_wrt (<) (currentGeneration m # generations_after m calls)"
proof (intro conjI allI impI)
  assume "newG \<le> currentGeneration m"
  then show "UpdateGeneration m newG ids = (Inl (GenerationNotMonotonic (currentGeneration m) newG), m)"
    by (rule UpdateGeneration_panics)
next
  fix r m' assume "UpdateGeneration m newG ids = (Inr r, m')"
  then show "currentGeneration m < currentGeneration m'" "currentGeneration m' = newG"
    using UpdateGeneration_Inr by auto
next
  show "sorted_wrt (<) (currentGeneration m # generations_after m calls)"
    using generations_after_bound [of m calls] generations_after_sorted [of m calls] by simp
qed

theorem UpdateGeneration_strictly_monotonic_witness:
  "UpdateGeneration (NewManager 5 [''seg_a'']) 3 [] =
      (Inl (GenerationNotMonotonic 5 3), NewManager 5 [''seg_a''])
   \<and> fst (UpdateGeneration (NewManager 5 [''seg_a'']) 6 [''seg_b'']) = Inr [''seg_a'']
   \<and> currentGeneration (NewManager 5 [''seg_a''])
       < currentGeneration (snd (UpdateGeneration (NewManager 5 [''seg_a'']) 6 [''seg_b'']))
   \<and> generations_after (NewManager 5 [''seg_a'']) [(6, [''seg_b'']), (6, []), (2, []), (9, [])] = [6, 9]
   \<and> sorted_wrt (<) (currentGeneration (NewManager 5 [''seg_a''])
         # generations_after (NewManager 5 [''seg_a'']) [(6, [''seg_b'']), (6, []), (2, []), (9, [])])"
proof -
  let ?M = "NewManager 5 [''seg_a'']"
  let ?calls = "[(6, [''seg_b'']), (6, []), (2, []), (9, [])] :: (generation \<times> string list) list"
  have g: "currentGeneration ?M = 5"
    by (simp add: NewManager_def)
  have le: "3 \<le> currentGeneration ?M"
    by (simp only: g) simp
  have u: "UpdateGeneration ?M 6 [''seg_b''] =
      (fst (UpdateGeneration ?M 6 [''seg_b'']), snd (UpdateGeneration ?M 6 [''seg_b'']))"
    by (rule prod.collapse [symmetric])
  have r: "fst (UpdateGeneration ?M 6 [''seg_b'']) = Inr [''seg_a'']"
    by code_simp
  have gens: "generations_after ?M ?calls = [6, 9]"
    by code_simp
  note T1 = UpdateGeneration_strictly_monotonic [of 3 ?M "[]" ?calls]
  note T2 = UpdateGeneration_strictly_monotonic [of 6 ?M "[''seg_b'']" ?calls]
  from T1 le have p1: "UpdateGeneration ?M 3 [] = (Inl (GenerationNotMonotonic (currentGeneration ?M) 3), ?M)"
    by blast
  from T2 u r have p2: "currentGeneration ?M < currentGeneration (snd (UpdateGeneration ?M 6 [''seg_b'']))"
    by metis
  from T1 have p3: "sorted_wrt (<) (currentGeneration ?M # generations_after ?M ?calls)"
    by blast
  from p1 have p1': "UpdateGeneration ?M 3 [] = (Inl (GenerationNotMonotonic 5 3), ?M)"
    by (simp only: g)
  from p1' r p2 gens p3 show ?thesis by blast
qed

subsection \<open>Idempotent release\<close>

lemma unpin_all_length: "unpin_all as st = (p, st') \<Longrightarrow> length st' = length st"
  by (induction as st arbitrary: p st' rule: unpin_all.induct)
     (auto simp: Unpin_def Let_def split: if_splits prod.splits option.splits)







lemma pin_all_length [simp]: "length (pin_all as st) = length st"
  by (induction as st rule: pin_all.induct) simp_all

lemma pin_all_nth_other: "a \<notin> set as \<Longrightarrow> pin_all as st ! a = st ! a"
  by (induction as st rule: pin_all.induct) (simp_all add: nth_list_update)

lemma pin_all_update_commute:
  "a \<notin> set as \<Longrightarrow> (pin_all as st)[a := r] = pin_all as (st[a := r])"
  by (induction as st rule: pin_all.induct) (simp_all add: list_update_swap)

lemma Unpin_Pin: "0 \<le> refCount r \<Longrightarrow> Unpin (Pin r) = (None, r)"
  by (simp add: Unpin_def Pin_def Let_def)

lemma unpin_all_pin_all:
  "distinct as \<Longrightarrow> \<forall>a \<in> set as. a < length st \<and> 0 \<le> refCount (st ! a) \<Longrightarrow>
     unpin_all as (pin_all as st) = (None, st)"
proof (induction as arbitrary: st)
  case Nil
  then show ?case by simp
next
  case (Cons a as)
  let ?st1 = "st[a := Pin (st ! a)]"
  from Cons.prems have na: "a \<notin> set as" and da: "distinct as" and al: "a < length st"
    and rc: "0 \<le> refCount (st ! a)"
    by simp_all
  have top: "pin_all as ?st1 ! a = Pin (st ! a)"
    using na al by (simp add: pin_all_nth_other)
  have "unpin_all (a # as) (pin_all (a # as) st)
      = unpin_all as ((pin_all as ?st1)[a := st ! a])"
    using top rc by (simp add: Unpin_Pin)
  also have "(pin_all as ?st1)[a := st ! a] = pin_all as st"
    using na by (simp add: pin_all_update_commute)
  also have "unpin_all as (pin_all as st) = (None, st)"
    using da Cons.prems(2) by (intro Cons.IH) simp_all
  finally show ?case .
qed

text \<open>A manager whose segment map points to distinct, allocated refs with non-negative
  counters: a snapshot acquired from it can be released at once, and the store is then
  what it was before the acquisition.\<close>

lemma Acquire_then_Release:
  assumes "distinct (map snd (currentSegments m))"
    and "\<forall>a \<in> snd ` set (currentSegments m). a < length (store m) \<and> 0 \<le> refCount (store m ! a)"
    and "Acquire m = (s, m1)"
  shows "\<not> released s \<and> (\<forall>a \<in> set (Segments s). a < length (store m1))
    \<and> (\<exists>m2. Release s m1 = (None, s\<lparr>released := True\<rparr>, m2) \<and> store m2 = store m)"
proof -
  let ?segs = "if currentGeneration m \<noteq> 0 then map snd (currentSegments m) else []"
  from assms(3) have s: "Segments s = ?segs" "\<not> released s"
    and st: "store m1 = pin_all ?segs (store m)"
    by (auto simp: Acquire_def Let_def)
  from assms(1) have d: "distinct ?segs" by simp
  from assms(2) have r: "\<forall>a \<in> set ?segs. a < length (store m) \<and> 0 \<le> refCount (store m ! a)"
    by auto
  from unpin_all_pin_all [OF d r] s st
  have u: "unpin_all (Segments (s\<lparr>released := True\<rparr>)) (store m1) = (None, store m)"
    by simp
  from s(2) u have "Release s m1
      = (None, s\<lparr>released := True\<rparr>, releaseSnapshot (m1\<lparr>store := store m\<rparr>) (s\<lparr>released := True\<rparr>))"
    by (simp add: Release_def Let_def)
  moreover have "store (releaseSnapshot (m1\<lparr>store := store m\<rparr>) (s\<lparr>released := True\<rparr>)) = store m"
    by (simp add: releaseSnapshot_def)
  moreover from r s st have "\<forall>a \<in> set (Segments s). a < length (store m1)" by simp
  ultimately show ?thesis using s(2) by blast
qed



subsection \<open>Reclamation of segments that were pinned when they left the manifest\<close>

lemma Reclaimable_subset: "set (Reclaimable m) \<subseteq> fst ` set (currentSegments m)"
  by (auto simp: Reclaimable_def)

lemma map_set_keys: "fst ` set (map_set k v kvs) = insert k (fst ` set kvs)"
  by (induction k v kvs rule: map_set.induct) auto

lemma build_new_refs_keys:
  "build_new_refs ids cur st newRefs = (st', refs') \<Longrightarrow>
     fst ` set refs' = set ids \<union> fst ` set newRefs"
proof (induction ids cur st newRefs arbitrary: st' refs' rule: build_new_refs.induct)
  case (1 cur st newRefs)
  then show ?case by simp
next
  case (2 sid ids cur st newRefs)
  show ?case
  proof (cases "map_of cur sid")
    case None
    with "2.prems" "2.IH"(1) [OF None, of st' refs'] show ?thesis
      by (simp add: map_set_keys)
  next
    case (Some a)
    with "2.prems" "2.IH"(2) [OF Some, of st' refs'] show ?thesis
      by (simp add: map_set_keys)
  qed
qed

lemma UpdateGeneration_keys:
  assumes "UpdateGeneration m g ids = (Inr r, m')"
  shows "fst ` set (currentSegments m') = set ids"
proof -
  obtain st1 newRefs where b: "build_new_refs ids (currentSegments m) (store m) [] = (st1, newRefs)"
    by (cases "build_new_refs ids (currentSegments m) (store m) []")
  from assms b have "currentSegments m' = newRefs"
    by (auto simp: UpdateGeneration_def Let_def split: if_splits prod.splits)
  with build_new_refs_keys [OF b] show ?thesis by simp
qed

lemma Release_currentSegments:
  "Release s m = (p, s', m') \<Longrightarrow> currentSegments m' = currentSegments m"
  by (auto simp: Release_def releaseSnapshot_def Let_def split: if_splits prod.splits option.splits)

lemma removed_segment_never_listed:
  "UpdateGeneration m g ids = (Inr r, m1) \<Longrightarrow> sid \<notin> set ids \<Longrightarrow>
     Release s m1 = (p, s', m2) \<Longrightarrow> sid \<notin> set (Reclaimable m1) \<and> sid \<notin> set (Reclaimable m2)"
  using Reclaimable_subset [of m1] Reclaimable_subset [of m2]
    UpdateGeneration_keys [of m g ids r m1] Release_currentSegments [of s m1 p s' m2]
  by auto

text \<open>
  Claim C1, evaluated on the scenario of the specification: generation 5 with segments
  A, B, C; a reader acquires a snapshot; the committer moves to generation 6 with
  segments merged, C; the reader releases. \<^verbatim>\<open>UpdateGeneration\<close> returns no reclaimable
  id, the release succeeds, and afterwards the refs of A and B (addresses 0 and 1)
  satisfy \<^verbatim>\<open>CanReclaim\<close>; yet \<^verbatim>\<open>Reclaimable\<close> returns the empty list, because it scans
  \<^verbatim>\<open>currentSegments\<close>, from which \<^verbatim>\<open>UpdateGeneration\<close> dropped both refs.
\<close>

theorem Reclaimable_misses_released_segments:
  "(let m0 = NewManager 5 [''A'', ''B'', ''C''];
        (s, m1) = Acquire m0;
        (r, m2) = UpdateGeneration m1 6 [''merged'', ''C''];
        (p, s', m3) = Release s m2
    in r = Inr [] \<and> p = None
       \<and> segmentID (store m3 ! 0) = ''A'' \<and> CanReclaim (store m3 ! 0)
       \<and> segmentID (store m3 ! 1) = ''B'' \<and> CanReclaim (store m3 ! 1)
       \<and> Reclaimable m3 = [])"
  by (simp add: NewManager_def Acquire_def UpdateGeneration_def Release_def Reclaimable_def
      CanReclaim_def SetInManifest_def NewSegmentRef_def Pin_def Unpin_def releaseSnapshot_def
      map_delete_def Let_def)

section \<open>Properties of the top-K collector\<close>

text \<open>
  Claim C4 as stated fails on its two \<^verbatim>\<open>min_score\<close> values: with K = 3, after the
  fourth collect the heap holds the scores 2, 3, 5, so the minimum is 2, not 3; after
  the fifth it holds 3, 4, 5, so the minimum is 3, not 4.
\<close>

theorem TopK_scenario_min_score_counterexample:
  "MinScore (collect_all (NewTopKCollector 3) [(1, Fin 1), (2, Fin 3), (3, Fin 2), (4, Fin 5)]) \<noteq> Fin 3
   \<and> MinScore (collect_all (NewTopKCollector 3) [(1, Fin 1), (2, Fin 3), (3, Fin 2), (4, Fin 5), (5, Fin 4)]) \<noteq> Fin 4"
  by code_simp

text \<open>
  Claim C4, amended. For a collector created with K = 3, after collecting
  (1, 1.0), (2, 3.0), (3, 2.0), (4, 5.0), (5, 4.0) in that order, \<^verbatim>\<open>Results\<close> returns
  [(4, 5.0), (5, 4.0), (2, 3.0)]; \<^verbatim>\<open>MinScore\<close> right after the fourth collect returns 2.0
  and right after the fifth collect returns 3.0.
\<close>

theorem TopK_scenario:
  "map_option fst (Results (collect_all (NewTopKCollector 3) [(1, Fin 1), (2, Fin 3), (3, Fin 2), (4, Fin 5), (5, Fin 4)]))
     = Some [\<lparr>DocID = 4, Score = Fin 5\<rparr>, \<lparr>DocID = 5, Score = Fin 4\<rparr>, \<lparr>DocID = 2, Score = Fin 3\<rparr>]
   \<and> MinScore (collect_all (NewTopKCollector 3) [(1, Fin 1), (2, Fin 3), (3, Fin 2), (4, Fin 5)]) = Fin 2
   \<and> MinScore (collect_all (NewTopKCollector 3) [(1, Fin 1), (2, Fin 3), (3, Fin 2), (4, Fin 5), (5, Fin 4)]) = Fin 3"
  by code_simp

section \<open>Properties of the Levenshtein automaton\<close>

text \<open>
  Claim C3, evaluated at target "abc", maximal distance 1 and input "xabc" (bytes
  120, 97, 98, 99): the constructor accepts the parameters, the input is one insertion
  away from the target, and the automaton rejects it. On the mismatching first byte
  \<^verbatim>\<open>bestState\<close> keeps only the substitution state (position 1, one edit), the state of
  the insertion (position 0, one edit) is dropped, and the next byte kills the run.
\<close>

theorem Levenshtein_rejects_leading_insertion:
  "NewLevenshteinAutomaton [97, 98, 99] 1 = Inr \<lparr>target = [97, 98, 99], maxDist = 1\<rparr>
   \<and> edit_distance [120, 97, 98, 99] [97, 98, 99] \<le> 1
   \<and> run_from \<lparr>target = [97, 98, 99], maxDist = 1\<rparr>
        (Start \<lparr>target = [97, 98, 99], maxDist = 1\<rparr>) [120, 97, 98, 99] = DeadState
   \<and> \<not> runAutomaton \<lparr>target = [97, 98, 99], maxDist = 1\<rparr> [120, 97, 98, 99]"
  by code_simp

section \<open>Properties of crash recovery\<close>

text \<open>
  Claim C2, evaluated on the scenario of the specification: generations 1 and 2 were
  committed, \<^verbatim>\<open>manifest.current\<close> holds 2, the manifest of generation 2 is corrupt, the
  manifest of generation 1 is intact and its only segment verifies. Recovery succeeds at
  generation 1 with \<^verbatim>\<open>FellBack\<close> set and \<^verbatim>\<open>FellBackFrom = 2\<close>, but \<^verbatim>\<open>manifest.current\<close>
  still holds 2 afterwards: only step 4, which is skipped when the segments of the
  manifest chosen in step 2 verify, rewrites the file.
\<close>

theorem Recover_manifest_fallback_keeps_current:
  "(let m1 = \<lparr>man_Generation = 1,
              man_Segments = [\<lparr>seg_ID = ''seg_gen_1_0000000a'',
                               seg_Files = [(''fst.bin'', ''sha256:aa'')]\<rparr>]\<rparr>;
        dir = \<lparr>manifest_current = Holds 2,
               manifests = [(1, Intact m1), (2, Corrupt)],
               segment_dirs = [(''seg_gen_1_0000000a'', [(''fst.bin'', ''sha256:aa'')]),
                               (''seg_gen_2_0000000b'', [(''fst.bin'', ''sha256:bb'')])],
               tmp_entries = [], write_current_fails = False\<rparr>
    in case Recover dir DefaultOptions of
         (Inl e, dir') \<Rightarrow> False
       | (Inr result, dir') \<Rightarrow>
           res_Generation result = 1 \<and> res_Manifest result = Some m1
           \<and> FellBack result \<and> FellBackFrom result = 2
           \<and> manifest_current dir' = Holds 2)"
  by code_simp

section \<open>Ascending order under interleaved Next and Advance\<close>

text \<open>
  Claim C7, evaluated on a disjunction over the single child with doc ids 1, 5, 9:
  \<^verbatim>\<open>Advance(5)\<close> succeeds and positions the iterator at doc id 5; the following \<^verbatim>\<open>Next()\<close>
  succeeds as well and reports doc id 5 again. \<^verbatim>\<open>Advance\<close> leaves the children standing at
  the doc id it reports, whereas \<^verbatim>\<open>Next\<close> takes the doc id from the top of the heap before
  moving the children past it.
\<close>

theorem Disjunction_Advance_then_Next_repeats:
  "(case disj_Advance (NewDisjunctionIterator [NewSlicePostingsIterator [1, 5, 9] None]) 5 of
      None \<Rightarrow> False
    | Some (ok1, d1) \<Rightarrow>
        ok1 \<and> disj_DocID d1 = 5
        \<and> (case disj_Next d1 of
              None \<Rightarrow> False
            | Some (ok2, d2) \<Rightarrow> ok2 \<and> disj_DocID d2 = 5))"
  by code_simp

section \<open>A conjunction led by a disjunction\<close>

text \<open>
  Claim C5, evaluated on the conjunction of two children: a disjunction over the single
  slice with doc ids 1, 5, and the slice with doc ids 5, 6, 7. The intersection of the
  doc-id sets is {5}, and repeated \<^verbatim>\<open>Next\<close> on the conjunction emits 5 twice. The
  disjunction is the lead (cost 1 against 3). In the first \<^verbatim>\<open>Next\<close>, \<^verbatim>\<open>align\<close> calls
  \<^verbatim>\<open>Advance(5)\<close> on the lead, which reports 5 and leaves the child of the disjunction
  standing at 5; the second \<^verbatim>\<open>Next\<close> of the conjunction calls \<^verbatim>\<open>Next\<close> on the lead, which
  takes the doc id from the top of its heap, 5 again, and the other child is still
  aligned at 5.
\<close>

theorem Conjunction_led_by_disjunction_repeats:
  "(case it_NewDisjunctionIterator 10 [SliceIt (NewSlicePostingsIterator [1, 5] None)] of
      Ret d \<Rightarrow>
        (case it_NewConjunctionIterator [d, SliceIt (NewSlicePostingsIterator [5, 6, 7] None)] of
           Ret c \<Rightarrow> it_drain 30 c = Ret [5, 5]
         | _ \<Rightarrow> False)
    | _ \<Rightarrow> False)"
  by code_simp

section \<open>Correctness of the conjunction iterator\<close>

lemma sorted_drop_Min:
  fixes xs :: "('a::linorder) list"
  assumes "sorted xs" and "n < length xs"
  shows "xs ! n = Min (set (drop n xs))"
proof -
  from assms(2) have d: "drop n xs = xs ! n # drop (Suc n) xs"
    by (simp add: Cons_nth_drop_Suc)
  from assms(1) have "sorted (drop n xs)" by (rule sorted_wrt_drop)
  with d have "\<forall>y \<in> set (drop n xs). xs ! n \<le> y" by auto
  moreover from d have "xs ! n \<in> set (drop n xs)" by simp
  ultimately show ?thesis by (metis List.finite_set Min_eqI)
qed

lemma advance_loop_avail:
  "sorted (docIDs it) \<Longrightarrow> - 1 \<le> pos it \<Longrightarrow> advance_loop it t = (b, it') \<Longrightarrow>
     set (drop (nat (pos it')) (docIDs it)) = {x \<in> set (drop (nat (pos it + 1)) (docIDs it)). t \<le> x}"
proof (induction it t arbitrary: b it' rule: advance_loop.induct)
  case (1 it t)
  let ?ds = "docIDs it"
  let ?n = "nat (pos it + 1)"
  show ?case
  proof (cases "pos it + 1 < int (length ?ds)")
    case False
    with "1.prems" have "pos it' = int (length ?ds)"
      by (subst (asm) advance_loop.simps) auto
    with False show ?thesis by simp
  next
    case True
    then have n: "?n < length ?ds" using "1.prems"(2) by linarith
    then have d: "drop ?n ?ds = ?ds ! ?n # drop (Suc ?n) ?ds"
      by (simp add: Cons_nth_drop_Suc)
    from "1.prems"(1) have sd: "sorted (drop ?n ?ds)" by (rule sorted_wrt_drop)
    show ?thesis
    proof (cases "t \<le> ?ds ! ?n")
      case ge: True
      with True "1.prems" have "pos it' = pos it + 1"
        by (subst (asm) advance_loop.simps) (auto simp: Let_def)
      moreover from sd d ge have "\<forall>x \<in> set (drop ?n ?ds). t \<le> x" by auto
      ultimately show ?thesis by auto
    next
      case lt: False
      let ?it1 = "it\<lparr>pos := pos it + 1\<rparr>"
      from True lt "1.prems" have r: "advance_loop ?it1 t = (b, it')"
        by (subst (asm) advance_loop.simps) (auto simp: Let_def)
      have "set (drop (nat (pos it')) (docIDs ?it1))
          = {x \<in> set (drop (nat (pos ?it1 + 1)) (docIDs ?it1)). t \<le> x}"
        using True lt "1.prems" r by (intro "1.IH") (auto simp: Let_def)
      moreover have "nat (pos ?it1 + 1) = Suc ?n" using "1.prems"(2) by (simp add: nat_add_distrib)
      ultimately have "set (drop (nat (pos it')) ?ds) = {x \<in> set (drop (Suc ?n) ?ds). t \<le> x}"
        by simp
      with d lt show ?thesis by auto
    qed
  qed
qed

lemma slice_Advance_avail:
  assumes "ok_child it" and "slice_Advance it t = (b, it')"
  shows "ok_child it' \<and> docIDs it' = docIDs it
    \<and> avail it' = {x \<in> avail it. t \<le> x}
    \<and> (b \<longleftrightarrow> avail it' \<noteq> {})
    \<and> (b \<longrightarrow> 0 \<le> pos it' \<and> pos it' < int (length (docIDs it'))
            \<and> slice_DocID it' = Min (avail it'))"
proof -
  let ?ds = "docIDs it"
  from assms(1) have s: "sorted ?ds" and p: "- 1 \<le> pos it" by (simp_all add: ok_child_def)
  have ds: "docIDs it' = ?ds" using assms(2) by (rule slice_Advance_docIDs)
  show ?thesis
  proof (cases "pos it \<ge> 0 \<and> pos it < int (length ?ds) \<and> ?ds ! nat (pos it) \<ge> t")
    case True
    with assms(2) have e: "it' = it" "b" by (simp_all add: slice_Advance_def)
    from True have n: "nat (pos it) < length ?ds" by linarith
    from sorted_drop_Min [OF s n] have m: "?ds ! nat (pos it) = Min (avail it)"
      by (simp add: avail_def)
    from n have ne: "avail it \<noteq> {}" by (simp add: avail_def)
    have "\<forall>x \<in> avail it. t \<le> x"
      using True m ne by (metis List.finite_set Min_le avail_def order_trans)
    with e True m ne assms(1) show ?thesis
      by (auto simp: slice_DocID_def)
  next
    case False
    with assms(2) have al: "advance_loop it t = (b, it')" by (simp add: slice_Advance_def)
    from advance_loop_avail [OF s p al] ds
    have a: "avail it' = {x \<in> set (drop (nat (pos it + 1)) ?ds). t \<le> x}"
      by (simp add: avail_def)
    have "{x \<in> set (drop (nat (pos it + 1)) ?ds). t \<le> x} = {x \<in> avail it. t \<le> x}"
    proof (cases "pos it \<ge> 0 \<and> pos it < int (length ?ds)")
      case True
      then have n: "nat (pos it) < length ?ds" by linarith
      then have d: "drop (nat (pos it)) ?ds = ?ds ! nat (pos it) # drop (Suc (nat (pos it))) ?ds"
        by (simp add: Cons_nth_drop_Suc)
      from True have "nat (pos it + 1) = Suc (nat (pos it))" by linarith
      with d False True show ?thesis by (auto simp: avail_def)
    next
      case False
      with p have "pos it = - 1 \<or> pos it \<ge> int (length ?ds)" by linarith
      then show ?thesis by (auto simp: avail_def)
    qed
    with a have av: "avail it' = {x \<in> avail it. t \<le> x}" by simp
    show ?thesis
    proof (cases b)
      case True
      with al have "advance_loop it t = (True, it')" by simp
      from advance_loop_true [OF this]
      have t: "pos it < pos it'" "pos it' < int (length ?ds)"
        by auto
      with p have n: "nat (pos it') < length ?ds" and nn: "0 \<le> pos it'" by linarith+
      from sorted_drop_Min [OF s n] ds have "slice_DocID it' = Min (avail it')"
        by (simp add: slice_DocID_def avail_def)
      moreover from n ds have "avail it' \<noteq> {}" by (simp add: avail_def)
      ultimately show ?thesis using True av ds t nn s by (simp add: ok_child_def)
    next
      case False
      with al have "advance_loop it t = (False, it')" by simp
      from advance_loop_false [OF this] have "pos it' = int (length ?ds)" by auto
      with ds have "avail it' = {}" "ok_child it'" using s by (simp_all add: avail_def ok_child_def)
      with False av ds show ?thesis by simp
    qed
  qed
qed


lemma Inter_avail_Nil [simp]: "Inter_avail [] = UNIV"
  by (simp add: Inter_avail_def)

lemma Inter_avail_Cons [simp]: "Inter_avail (c # cs) = avail c \<inter> Inter_avail cs"
  by (simp add: Inter_avail_def)

lemma scan_children_spec:
  "\<forall>c \<in> set cs. ok_child c \<Longrightarrow> scan_children t cs = (r, cs') \<Longrightarrow>
     (\<forall>c' \<in> set cs'. ok_child c')
     \<and> map docIDs cs' = map docIDs cs
     \<and> Inter_avail cs' \<inter> {x. t \<le> x} = Inter_avail cs \<inter> {x. t \<le> x}
     \<and> (r = Exhausted \<longrightarrow> Inter_avail cs \<inter> {x. t \<le> x} = {})
     \<and> (\<forall>t'. r = Past t' \<longrightarrow> t < t' \<and> Inter_avail cs \<inter> {x. t \<le> x} \<subseteq> {x. t' \<le> x})
     \<and> (r = AllAligned \<longrightarrow> (\<forall>c' \<in> set cs'. t \<in> avail c'))"
proof (induction t cs arbitrary: r cs' rule: scan_children.induct)
  case (1 t)
  then show ?case by auto
next
  case (2 t child rest)
  obtain b child' where adv: "slice_Advance child t = (b, child')"
    by (cases "slice_Advance child t")
  from "2.prems"(1) have okc: "ok_child child" and okr: "\<forall>c \<in> set rest. ok_child c"
    by simp_all
  note A = slice_Advance_avail [OF okc adv]
  from A have ok': "ok_child child'" and ds: "docIDs child' = docIDs child"
    and av: "avail child' = {x \<in> avail child. t \<le> x}"
    and bne: "b \<longleftrightarrow> avail child' \<noteq> {}"
    and mn: "b \<Longrightarrow> slice_DocID child' = Min (avail child')"
    by blast+
  have fin: "finite (avail child')" by (simp add: avail_def)
  show ?case
  proof (cases b)
    case False
    with adv "2.prems"(2) have r: "r = Exhausted" "cs' = child' # rest" by auto
    from False bne have "avail child' = {}" by simp
    with av r ok' ds okr show ?thesis by auto
  next
    case True
    with bne have ne: "avail child' \<noteq> {}" by simp
    from mn True have m: "slice_DocID child' = Min (avail child')" by simp
    with fin ne have mem: "slice_DocID child' \<in> avail child'" by simp
    from m fin have low: "\<forall>x \<in> avail child'. slice_DocID child' \<le> x" by simp
    show ?thesis
    proof (cases "slice_DocID child' > t")
      case gt: True
      with adv True "2.prems"(2) have r: "r = Past (slice_DocID child')" "cs' = child' # rest"
        by auto
      with av ok' ds okr gt low show ?thesis by auto
    next
      case ngt: False
      from mem av have "t \<le> slice_DocID child'" by simp
      with ngt have eq: "slice_DocID child' = t" by simp
      obtain r2 rest' where sc: "scan_children t rest = (r2, rest')"
        by (cases "scan_children t rest")
      with adv True ngt "2.prems"(2) have r: "r = r2" "cs' = child' # rest'" by auto
      have IH: "(\<forall>c' \<in> set rest'. ok_child c')
        \<and> map docIDs rest' = map docIDs rest
        \<and> Inter_avail rest' \<inter> {x. t \<le> x} = Inter_avail rest \<inter> {x. t \<le> x}
        \<and> (r2 = Exhausted \<longrightarrow> Inter_avail rest \<inter> {x. t \<le> x} = {})
        \<and> (\<forall>t'. r2 = Past t' \<longrightarrow> t < t' \<and> Inter_avail rest \<inter> {x. t \<le> x} \<subseteq> {x. t' \<le> x})
        \<and> (r2 = AllAligned \<longrightarrow> (\<forall>c' \<in> set rest'. t \<in> avail c'))"
        using adv True ngt okr sc by (intro "2.IH") auto
      from mem eq have tm: "t \<in> avail child'" by simp
      from IH av ok' ds r tm show ?thesis by (auto simp: Int_def)
    qed
  qed
qed

lemma align_spec:
  assumes "ok_child (lead c)" and "0 \<le> pos (lead c)" and "pos (lead c) < int (length (docIDs (lead c)))"
    and "slice_DocID (lead c) = t" and "\<forall>ch \<in> set (others c). ok_child ch"
    and "align c t = (b, c')"
  shows "(b \<longleftrightarrow> avail (lead c) \<inter> Inter_avail (others c) \<noteq> {})
    \<and> (b \<longrightarrow> docIDs (lead c') = docIDs (lead c)
          \<and> 0 \<le> pos (lead c') \<and> pos (lead c') < int (length (docIDs (lead c')))
          \<and> (\<forall>ch \<in> set (others c'). ok_child ch)
          \<and> map docIDs (others c') = map docIDs (others c)
          \<and> current c' = Min (avail (lead c) \<inter> Inter_avail (others c))
          \<and> slice_DocID (lead c') = current c'
          \<and> avail (lead c') \<inter> Inter_avail (others c') = avail (lead c) \<inter> Inter_avail (others c))"
  using assms
proof (induction c t arbitrary: b c' rule: align.induct)
  case (1 c t)
  let ?L = "avail (lead c)"
  let ?R = "?L \<inter> Inter_avail (others c)"
  let ?ds = "docIDs (lead c)"
  from "1.prems"(1) have sL: "sorted ?ds" by (simp add: ok_child_def)
  from "1.prems"(2,3) have n: "nat (pos (lead c)) < length ?ds" by linarith
  have finL: "finite ?L" by (simp add: avail_def)
  from sorted_drop_Min [OF sL n] "1.prems"(4) have tMin: "t = Min ?L"
    by (simp add: slice_DocID_def avail_def)
  from n have neL: "?L \<noteq> {}" by (simp add: avail_def)
  from tMin finL neL have tL: "t \<in> ?L" by simp
  from tMin finL have lowL: "\<forall>x \<in> ?L. t \<le> x" by simp
  obtain r os where sc: "scan_children t (others c) = (r, os)"
    by (cases "scan_children t (others c)")
  note S = scan_children_spec [OF "1.prems"(5) sc]
  from S have okos: "\<forall>ch \<in> set os. ok_child ch" and dsos: "map docIDs os = map docIDs (others c)"
    and eqI: "Inter_avail os \<inter> {x. t \<le> x} = Inter_avail (others c) \<inter> {x. t \<le> x}"
    by blast+
  from eqI lowL have Req: "?L \<inter> Inter_avail os = ?R" by blast
  show ?case
  proof (cases r)
    case Exhausted
    with sc "1.prems"(6) have res: "b = False" by (subst (asm) align.simps) auto
    from S Exhausted have "Inter_avail (others c) \<inter> {x. t \<le> x} = {}" by blast
    with lowL have "?R = {}" by blast
    with res show ?thesis by simp
  next
    case AllAligned
    with sc "1.prems"(6) have res: "b" "c' = c\<lparr>others := os, current := t\<rparr>"
      by (subst (asm) align.simps, auto)+
    from S AllAligned have "\<forall>ch \<in> set os. t \<in> avail ch" by blast
    then have "t \<in> Inter_avail os" by (simp add: Inter_avail_def)
    with tL Req have tR: "t \<in> ?R" by blast
    have finR: "finite ?R" using finL by simp
    from tR lowL finR have "Min ?R = t" by (intro Min_eqI) auto
    with res tR okos dsos Req "1.prems"(2,3,4) show ?thesis by auto
  next
    case (Past t')
    from S Past have tt': "t < t'" and sub: "Inter_avail (others c) \<inter> {x. t \<le> x} \<subseteq> {x. t' \<le> x}"
      by blast+
    from sub lowL have Rge: "?R \<subseteq> {x. t' \<le> x}" by blast
    obtain ok l' where adv: "slice_Advance (lead c) t' = (ok, l')"
      by (cases "slice_Advance (lead c) t'")
    note A = slice_Advance_avail [OF "1.prems"(1) adv]
    from A have avl: "avail l' = {x \<in> ?L. t' \<le> x}" and okne: "ok \<longleftrightarrow> avail l' \<noteq> {}"
      and okl: "ok_child l'" and dsl: "docIDs l' = ?ds"
      by blast+
    from avl Rge Req have R2: "avail l' \<inter> Inter_avail os = ?R" by blast
    show ?thesis
    proof (cases ok)
      case False
      with sc Past adv "1.prems"(6) have res: "b = False" by (subst (asm) align.simps) auto
      from False okne R2 have "?R = {}" by blast
      with res show ?thesis by simp
    next
      case True
      with sc Past adv "1.prems"(6)
      have rec: "align (c\<lparr>others := os, lead := l'\<rparr>) (slice_DocID l') = (b, c')"
        by (subst (asm) align.simps) auto
      from A True have vl: "0 \<le> pos l'" "pos l' < int (length (docIDs l'))" by blast+
      let ?c2 = "c\<lparr>others := os, lead := l'\<rparr>"
      have IH: "(b \<longleftrightarrow> avail (lead ?c2) \<inter> Inter_avail (others ?c2) \<noteq> {})
        \<and> (b \<longrightarrow> docIDs (lead c') = docIDs (lead ?c2)
          \<and> 0 \<le> pos (lead c') \<and> pos (lead c') < int (length (docIDs (lead c')))
          \<and> (\<forall>ch \<in> set (others c'). ok_child ch)
          \<and> map docIDs (others c') = map docIDs (others ?c2)
          \<and> current c' = Min (avail (lead ?c2) \<inter> Inter_avail (others ?c2))
          \<and> slice_DocID (lead c') = current c'
          \<and> avail (lead c') \<inter> Inter_avail (others c') = avail (lead ?c2) \<inter> Inter_avail (others ?c2))"
        using sc Past adv True okl vl okos rec
        by (intro "1.IH") auto
      with R2 dsl dsos show ?thesis by auto
    qed
  qed
qed

lemma conj_Next_spec:
  assumes "conj_inv c" and "conj_Next c = (b, c')"
  shows "(b \<longleftrightarrow> remaining c \<noteq> {})
    \<and> (b \<longrightarrow> conj_inv c' \<and> conj_DocID c' = Min (remaining c)
          \<and> remaining c' = remaining c - {Min (remaining c)})"
proof -
  let ?l = "lead c"
  let ?ds = "docIDs ?l"
  from assms(1) have s: "sorted ?ds" and di: "distinct ?ds" and p: "- 1 \<le> pos ?l"
    and oks: "\<forall>ch \<in> set (others c). ok_child ch"
    by (simp_all add: conj_inv_def)
  obtain ok l' where n: "slice_Next ?l = (ok, l')" by (cases "slice_Next ?l")
  then have l': "l' = ?l\<lparr>pos := pos ?l + 1\<rparr>" and ok: "ok \<longleftrightarrow> pos ?l + 1 < int (length ?ds)"
    by (auto simp: slice_Next_def Let_def)
  have avl: "avail l' = set (drop (nat (pos ?l + 1)) ?ds)"
    using l' by (simp add: avail_def)
  show ?thesis
  proof (cases ok)
    case False
    with n assms(2) have "b = False" by (auto simp: conj_Next_def)
    moreover from False ok have "drop (nat (pos ?l + 1)) ?ds = []" by simp
    ultimately show ?thesis by (simp add: remaining_def)
  next
    case True
    let ?c1 = "c\<lparr>lead := l'\<rparr>"
    from True n assms(2) have al: "align ?c1 (slice_DocID l') = (b, c')"
      by (auto simp: conj_Next_def)
    from l' s p have okl: "ok_child (lead ?c1)" by (simp add: ok_child_def)
    from l' p have p0: "0 \<le> pos (lead ?c1)" by simp
    from l' True ok have p1: "pos (lead ?c1) < int (length (docIDs (lead ?c1)))" by simp
    from oks have oks1: "\<forall>ch \<in> set (others ?c1). ok_child ch" by simp
    have R: "avail (lead ?c1) \<inter> Inter_avail (others ?c1) = remaining c"
      using avl by (simp add: remaining_def)
    note A = align_spec [OF okl p0 p1 _ oks1 al, simplified R]
    have A1: "b \<longleftrightarrow> remaining c \<noteq> {}" using A by simp
    show ?thesis
    proof (cases b)
      case False
      with A1 show ?thesis by simp
    next
      case b: True
      from A b l' have dsl: "docIDs (lead c') = ?ds"
        and q0: "0 \<le> pos (lead c')" and q1: "pos (lead c') < int (length (docIDs (lead c')))"
        and oks': "\<forall>ch \<in> set (others c'). ok_child ch"
        and cur: "current c' = Min (remaining c)"
        and did: "slice_DocID (lead c') = current c'"
        and R': "avail (lead c') \<inter> Inter_avail (others c') = remaining c"
        by auto
      from dsl s di q0 oks' have inv': "conj_inv c'" by (simp add: conj_inv_def)
      let ?m = "nat (pos (lead c'))"
      from q0 q1 dsl have m: "?m < length ?ds" by simp
      then have d: "drop ?m ?ds = ?ds ! ?m # drop (Suc ?m) ?ds"
        by (simp add: Cons_nth_drop_Suc)
      from di have "distinct (drop ?m ?ds)" by simp
      with d have notin: "?ds ! ?m \<notin> set (drop (Suc ?m) ?ds)" by (metis distinct.simps(2))
      from q0 have suc: "nat (pos (lead c') + 1) = Suc ?m" by linarith
      from did cur dsl have val: "?ds ! ?m = Min (remaining c)" by (simp add: slice_DocID_def)
      have "set (drop (Suc ?m) ?ds) = avail (lead c') - {Min (remaining c)}"
        using d notin val dsl by (auto simp: avail_def)
      then have "remaining c' = (avail (lead c') - {Min (remaining c)}) \<inter> Inter_avail (others c')"
        using suc dsl by (simp add: remaining_def)
      also have "\<dots> = remaining c - {Min (remaining c)}" using R' by blast
      finally have "remaining c' = remaining c - {Min (remaining c)}" .
      with A1 b inv' cur show ?thesis by (simp add: conj_DocID_def)
    qed
  qed
qed

lemma remaining_finite: "finite (remaining c)"
  by (simp add: remaining_def)

lemma conj_drain_spec:
  "conj_inv c \<Longrightarrow> conj_drain c = sorted_list_of_set (remaining c)"
proof (induction c rule: conj_drain.induct)
  case (1 c)
  obtain b c' where n: "conj_Next c = (b, c')" by (cases "conj_Next c")
  note N = conj_Next_spec [OF "1.prems" n]
  show ?case
  proof (cases b)
    case False
    with N have "remaining c = {}" by simp
    moreover from False n have "conj_drain c = []" by (subst conj_drain.simps) simp
    ultimately show ?thesis by simp
  next
    case True
    with N have ne: "remaining c \<noteq> {}" and inv': "conj_inv c'"
      and d: "conj_DocID c' = Min (remaining c)"
      and r: "remaining c' = remaining c - {Min (remaining c)}"
      by simp_all
    from True n have "conj_drain c = conj_DocID c' # conj_drain c'"
      by (subst conj_drain.simps) simp
    also have "conj_drain c' = sorted_list_of_set (remaining c')"
      using n True inv' by (intro "1.IH") auto
    finally show ?thesis
      using d r ne remaining_finite [of c]
      by (simp add: sorted_list_of_set_nonempty)
  qed
qed

lemma fresh_avail: "pos ch = - 1 \<Longrightarrow> avail ch = set (docIDs ch)"
  by (simp add: avail_def)

lemma conj_of_sorted_drain:
  assumes "srt \<noteq> []"
    and "\<forall>ch \<in> set srt. pos ch = - 1 \<and> sorted (docIDs ch) \<and> distinct (docIDs ch)"
  shows "conj_drain (conj_of_sorted srt) = sorted_list_of_set (\<Inter>ch \<in> set srt. set (docIDs ch))"
proof -
  obtain l os where srt: "srt = l # os" using assms(1) by (cases srt) auto
  let ?c = "conj_of_sorted srt"
  from srt have c: "lead ?c = l" "others ?c = os" by (simp_all add: conj_of_sorted_def)
  from assms(2) srt have l: "pos l = - 1" "sorted (docIDs l)" "distinct (docIDs l)"
    and os: "\<forall>ch \<in> set os. pos ch = - 1 \<and> sorted (docIDs ch)"
    by simp_all
  from c l os have inv: "conj_inv ?c" by (simp add: conj_inv_def ok_child_def)
  from os have "Inter_avail os = (\<Inter>ch \<in> set os. set (docIDs ch))"
    by (simp add: Inter_avail_def fresh_avail)
  with c l srt have "remaining ?c = (\<Inter>ch \<in> set srt. set (docIDs ch))"
    by (simp add: remaining_def)
  with conj_drain_spec [OF inv] show ?thesis by simp
qed

text \<open>
  Over slice iterators the conjunction is right: built over fresh slice iterators
  (cursor at -1) whose doc ids are strictly ascending, it emits, by repeated \<^verbatim>\<open>Next\<close>
  until exhaustion, exactly the ascending list of the intersection of the children's
  doc-id sets. This needs only one child or more, and it holds for every order in which
  the unstable \<^verbatim>\<open>sort.Slice\<close> may arrange the children.
\<close>

lemma NewSliceConjunction_emits_sorted_intersection:
  assumes "children \<noteq> []"
    and "\<forall>ch \<in> set children. pos ch = - 1 \<and> sorted (docIDs ch) \<and> distinct (docIDs ch)"
  shows "(\<exists>c. NewSliceConjunction children = Some c
            \<and> conj_drain c = sorted_list_of_set (\<Inter>ch \<in> set children. set (docIDs ch)))
    \<and> (\<forall>srt. mset srt = mset children \<longrightarrow>
           conj_drain (conj_of_sorted srt)
             = sorted_list_of_set (\<Inter>ch \<in> set children. set (docIDs ch)))"
proof -
  have perm: "conj_drain (conj_of_sorted srt)
      = sorted_list_of_set (\<Inter>ch \<in> set children. set (docIDs ch))"
    if m: "mset srt = mset children" for srt
  proof -
    from m have se: "set srt = set children" by (rule mset_eq_setD)
    with assms(1) have ne: "srt \<noteq> []" by auto
    from se assms(2) have "\<forall>ch \<in> set srt. pos ch = - 1 \<and> sorted (docIDs ch) \<and> distinct (docIDs ch)"
      by simp
    from conj_of_sorted_drain [OF ne this] se show ?thesis by simp
  qed
  have "mset (sort_key slice_Cost children) = mset children" by simp
  from perm [OF this] assms(1) show ?thesis
    using perm by (simp add: NewSliceConjunction_def)
qed

section \<open>Correctness of the heap functions\<close>

lemma parent_eq: "0 < c \<Longrightarrow> (c - 1) div 2 = i \<longleftrightarrow> c = 2 * i + 1 \<or> c = 2 * i + 2"
  for c i :: nat
  by presburger

lemma swap_nth:
  "i < length h \<Longrightarrow> j < length h \<Longrightarrow>
     swap h i j ! k = (if k = j then h ! i else if k = i then h ! j else h ! k)"
  by (simp add: swap_def nth_list_update)

lemma down_loop_stop: "n \<le> 2 * i + 1 \<Longrightarrow> down_loop lt h i n = (h, i)"
  by (subst down_loop.simps) simp

lemma down_loop_step:
  "2 * i + 1 < n \<Longrightarrow>
     j = (if 2 * i + 1 + 1 < n \<and> lt (h ! (2 * i + 1 + 1)) (h ! (2 * i + 1)) then 2 * i + 1 + 1
          else 2 * i + 1) \<Longrightarrow>
     down_loop lt h i n = (if \<not> lt (h ! j) (h ! i) then (h, i) else down_loop lt (swap h i j) j n)"
  by (subst down_loop.simps) (simp add: Let_def)

lemma down_loop_heap:
  "n \<le> length h \<Longrightarrow> heap_except key s i n h \<Longrightarrow>
     heap_from key s n (fst (down_loop (\<lambda>a b. key a < key b) h i n))"
proof (induction "(\<lambda>a b. key a < key b)" h i n rule: down_loop.induct)
  case (1 h i n)
  let ?lt = "\<lambda>a b. key a < key b"
  let ?j1 = "2 * i + 1"
  from "1.prems"(2) have E1: "\<And>j. 0 < j \<Longrightarrow> j < n \<Longrightarrow> s \<le> (j - 1) div 2 \<Longrightarrow> (j - 1) div 2 \<noteq> i
      \<Longrightarrow> key (h ! ((j - 1) div 2)) \<le> key (h ! j)"
    and E2: "\<And>j. 0 < j \<Longrightarrow> j < n \<Longrightarrow> (j - 1) div 2 = i \<Longrightarrow> 0 < i \<Longrightarrow> s \<le> (i - 1) div 2
      \<Longrightarrow> key (h ! ((i - 1) div 2)) \<le> key (h ! j)"
    by (auto simp: heap_except_def)
  show ?case
  proof (cases "?j1 \<ge> n")
    case True
    then have r: "down_loop ?lt h i n = (h, i)" by (simp add: down_loop_stop)
    have "heap_from key s n h"
      unfolding heap_from_def
    proof (intro allI impI)
      fix j assume j: "0 < j \<and> j < n \<and> s \<le> (j - 1) div 2"
      with True have "(j - 1) div 2 \<noteq> i" by presburger
      with j E1 show "key (h ! ((j - 1) div 2)) \<le> key (h ! j)" by blast
    qed
    with r show ?thesis by simp
  next
    case False
    define j where "j = (if ?j1 + 1 < n \<and> key (h ! (?j1 + 1)) < key (h ! ?j1) then ?j1 + 1 else ?j1)"
    from False have unf: "down_loop ?lt h i n
        = (if \<not> key (h ! j) < key (h ! i) then (h, i) else down_loop ?lt (swap h i j) j n)"
      by (intro down_loop_step) (simp_all add: j_def)
    from False have jn: "j < n" and ji: "i < j" and jp: "(j - 1) div 2 = i" and j0: "0 < j"
      by (auto simp: j_def)
    have jmin: "\<And>c. 0 < c \<Longrightarrow> c < n \<Longrightarrow> (c - 1) div 2 = i \<Longrightarrow> key (h ! j) \<le> key (h ! c)"
    proof -
      fix c :: nat assume c: "0 < c" "c < n" "(c - 1) div 2 = i"
      then have "c = ?j1 \<or> c = ?j1 + 1" by presburger
      with c show "key (h ! j) \<le> key (h ! c)" by (auto simp: j_def)
    qed
    show ?thesis
    proof (cases "key (h ! j) < key (h ! i)")
      case nl: False
      with unf have r: "down_loop ?lt h i n = (h, i)"
        by simp
      have "heap_from key s n h"
        unfolding heap_from_def
      proof (intro allI impI)
        fix c assume c: "0 < c \<and> c < n \<and> s \<le> (c - 1) div 2"
        show "key (h ! ((c - 1) div 2)) \<le> key (h ! c)"
        proof (cases "(c - 1) div 2 = i")
          case True
          with c jmin have "key (h ! j) \<le> key (h ! c)" by blast
          with nl True show ?thesis by simp
        next
          case False
          with c E1 show ?thesis by blast
        qed
      qed
      with r show ?thesis by simp
    next
      case l: True
      with unf have r: "down_loop ?lt h i n = down_loop ?lt (swap h i j) j n"
        by simp
      from jn ji "1.prems"(1) have il: "i < length h" and jl: "j < length h" by simp_all
      note sw = swap_nth [OF il jl]
      have ex: "heap_except key s j n (swap h i j)"
        unfolding heap_except_def
      proof (intro conjI allI impI)
        fix c assume c: "0 < c \<and> c < n \<and> s \<le> (c - 1) div 2 \<and> (c - 1) div 2 \<noteq> j"
        let ?p = "(c - 1) div 2"
        from c have pc: "?p < c" by presburger
        show "key (swap h i j ! ?p) \<le> key (swap h i j ! c)"
        proof (cases "?p = i")
          case True
          with c jmin have "key (h ! j) \<le> key (h ! c)" by blast
          with True l ji pc show ?thesis by (auto simp: sw)
        next
          case False
          show ?thesis
          proof (cases "c = i")
            case True
            with c have "0 < i" "s \<le> (i - 1) div 2" by simp_all
            with E2 [OF j0 jn jp] have "key (h ! ((i - 1) div 2)) \<le> key (h ! j)" by simp
            with True c pc ji show ?thesis by (auto simp: sw)
          next
            case ci: False
            from False jp have "c \<noteq> j" by auto
            with ci False c E1 [of c] show ?thesis by (auto simp: sw)
          qed
        qed
      next
        fix c assume c: "0 < c \<and> c < n \<and> (c - 1) div 2 = j \<and> 0 < j \<and> s \<le> (j - 1) div 2"
        then have cj: "j < c" by presburger
        from c jp ji have "key (h ! j) \<le> key (h ! c)"
          using E1 [of c] by simp
        with c cj ji jp show "key (swap h i j ! ((j - 1) div 2)) \<le> key (swap h i j ! c)"
          by (auto simp: sw)
      qed
      have "heap_from key s n (fst (down_loop ?lt (swap h i j) j n))"
        using False l "1.prems"(1) ex
        by (intro "1.hyps" [of ?j1 j]) (auto simp: j_def)
      with r show ?thesis by simp
    qed
  qed
qed

lemma down_fst: "fst (down lt h i n) = fst (down_loop lt h i n)"
  by (simp add: down_def split: prod.splits)

lemma down_heap:
  "n \<le> length h \<Longrightarrow> heap_except key s i n h \<Longrightarrow>
     heap_from key s n (fst (down (\<lambda>a b. key a < key b) h i n))"
  by (simp add: down_fst down_loop_heap)

lemma down_loop_nth_ge:
  "n \<le> length h \<Longrightarrow> n \<le> k \<Longrightarrow> fst (down_loop lt h i n) ! k = h ! k"
proof (induction lt h i n rule: down_loop.induct)
  case (1 lt h i n)
  show ?case
  proof (cases "n \<le> 2 * i + 1")
    case True
    then show ?thesis by (simp add: down_loop_stop)
  next
    case False
    define j where "j = (if 2 * i + 1 + 1 < n \<and> lt (h ! (2 * i + 1 + 1)) (h ! (2 * i + 1))
      then 2 * i + 1 + 1 else 2 * i + 1)"
    from False have unf: "down_loop lt h i n
        = (if \<not> lt (h ! j) (h ! i) then (h, i) else down_loop lt (swap h i j) j n)"
      by (intro down_loop_step) (simp_all add: j_def)
    from False have jn: "j < n" and ji: "i < j" by (auto simp: j_def)
    show ?thesis
    proof (cases "lt (h ! j) (h ! i)")
      case False
      with unf show ?thesis by simp
    next
      case True
      from jn ji "1.prems" have sw: "swap h i j ! k = h ! k"
        by (simp add: swap_nth)
      have "fst (down_loop lt (swap h i j) j n) ! k = swap h i j ! k"
        using False True "1.prems"
        by (intro "1.IH" [of "2 * i + 1" j]) (auto simp: j_def)
      with unf True sw show ?thesis by simp
    qed
  qed
qed

lemma heap_from_vacuous: "heap_from key (n div 2) n h"
  unfolding heap_from_def
proof (intro allI impI)
  fix j :: nat assume "0 < j \<and> j < n \<and> n div 2 \<le> (j - 1) div 2"
  then have False by presburger
  then show "key (h ! ((j - 1) div 2)) \<le> key (h ! j)" ..
qed

lemma heap_from_except_self: "heap_from key (Suc i) n h \<Longrightarrow> heap_except key i i n h"
  unfolding heap_from_def heap_except_def
proof (intro conjI allI impI)
  fix j assume h: "\<forall>j. 0 < j \<and> j < n \<and> Suc i \<le> (j - 1) div 2 \<longrightarrow> key (h ! ((j - 1) div 2)) \<le> key (h ! j)"
    and j: "0 < j \<and> j < n \<and> i \<le> (j - 1) div 2 \<and> (j - 1) div 2 \<noteq> i"
  then have "Suc i \<le> (j - 1) div 2" by simp
  with h j show "key (h ! ((j - 1) div 2)) \<le> key (h ! j)" by blast
next
  fix j :: nat assume "0 < j \<and> j < n \<and> (j - 1) div 2 = i \<and> 0 < i \<and> i \<le> (i - 1) div 2"
  then have False by presburger
  then show "key (h ! ((i - 1) div 2)) \<le> key (h ! j)" ..
qed

lemma init_loop_heap:
  "heap_from key k (length h) h \<Longrightarrow>
     heap_from key 0 (length h) (init_loop (\<lambda>a b. key a < key b) h k)
     \<and> mset (init_loop (\<lambda>a b. key a < key b) h k) = mset h"
proof (induction k arbitrary: h)
  case 0
  then show ?case by simp
next
  case (Suc i)
  let ?lt = "\<lambda>a b. key a < key b"
  let ?h1 = "fst (down ?lt h i (length h))"
  from Suc.prems have "heap_except key i i (length h) h" by (rule heap_from_except_self)
  then have "heap_from key i (length h) ?h1" by (intro down_heap) simp_all
  then have "heap_from key i (length ?h1) ?h1" by simp
  from Suc.IH [OF this] have "heap_from key 0 (length h) (init_loop ?lt ?h1 i)
      \<and> mset (init_loop ?lt ?h1 i) = mset ?h1"
    by simp
  then show ?case by (simp add: down_mset)
qed

lemma heap_Init_heap:
  "heap_from key 0 (length h) (heap_Init (\<lambda>a b. key a < key b) h)
   \<and> mset (heap_Init (\<lambda>a b. key a < key b) h) = mset h"
  unfolding heap_Init_def by (intro init_loop_heap heap_from_vacuous)

lemma heap_from_update_root:
  "heap_from key 0 n h \<Longrightarrow> heap_except key 0 0 n (h[0 := x])"
  unfolding heap_from_def heap_except_def
proof (intro conjI allI impI)
  fix j assume h: "\<forall>j. 0 < j \<and> j < n \<and> 0 \<le> (j - 1) div 2 \<longrightarrow> key (h ! ((j - 1) div 2)) \<le> key (h ! j)"
    and j: "0 < j \<and> j < n \<and> 0 \<le> (j - 1) div 2 \<and> (j - 1) div 2 \<noteq> 0"
  then have "key (h ! ((j - 1) div 2)) \<le> key (h ! j)" by blast
  with j show "key (h[0 := x] ! ((j - 1) div 2)) \<le> key (h[0 := x] ! j)" by simp
next
  fix j :: nat assume "0 < j \<and> j < n \<and> (j - 1) div 2 = 0 \<and> (0::nat) < 0 \<and> 0 \<le> (0 - 1) div (2::nat)"
  then show "key (h[0 := x] ! ((0 - 1) div 2)) \<le> key (h[0 := x] ! j)" by simp
qed

lemma heap_Fix_root_heap:
  "heap_except key 0 0 (length h) h \<Longrightarrow>
     heap_from key 0 (length h) (heap_Fix (\<lambda>a b. key a < key b) h 0)"
  by (simp add: heap_Fix_0 down_heap)

lemma heap_Pop_heap:
  assumes "heap_except key 0 0 (length h) h"
    and "heap_Pop (\<lambda>a b. key a < key b) h = Some (x, h')"
  shows "heap_from key 0 (length h') h' \<and> x = h ! 0 \<and> length h' = length h - 1"
proof -
  let ?lt = "\<lambda>a b. key a < key b"
  let ?n = "length h - 1"
  let ?h1 = "swap h 0 ?n"
  let ?h2 = "fst (down ?lt ?h1 0 ?n)"
  from assms(2) have ne: "h \<noteq> []" and x: "x = ?h2 ! ?n" and h': "h' = take ?n ?h2"
    by (auto simp: heap_Pop_def Let_def split: if_splits)
  from ne have n: "?n < length h" and z: "0 < length h" by (cases h, simp_all)+
  have s1: "\<And>c. c \<noteq> 0 \<Longrightarrow> c \<noteq> ?n \<Longrightarrow> ?h1 ! c = h ! c"
    using swap_nth [OF z n] by simp
  have s2: "?h1 ! ?n = h ! 0"
    using swap_nth [OF z n, of ?n] by simp
  have ex: "heap_except key 0 0 ?n ?h1"
    unfolding heap_except_def
  proof (intro conjI allI impI)
    fix j assume j: "0 < j \<and> j < ?n \<and> 0 \<le> (j - 1) div 2 \<and> (j - 1) div 2 \<noteq> 0"
    then have p: "(j - 1) div 2 < j" "(j - 1) div 2 \<noteq> ?n" "j \<noteq> ?n" "j \<noteq> 0" by presburger+
    from assms(1) have "\<And>c. 0 < c \<Longrightarrow> c < length h \<Longrightarrow> (c - 1) div 2 \<noteq> 0
        \<Longrightarrow> key (h ! ((c - 1) div 2)) \<le> key (h ! c)"
      by (simp add: heap_except_def)
    moreover from j have "0 < j" "j < length h" "(j - 1) div 2 \<noteq> 0" by linarith+
    ultimately have "key (h ! ((j - 1) div 2)) \<le> key (h ! j)"
      by blast
    moreover from j p have "?h1 ! ((j - 1) div 2) = h ! ((j - 1) div 2)" "?h1 ! j = h ! j"
      by (intro s1; simp)+
    ultimately show "key (?h1 ! ((j - 1) div 2)) \<le> key (?h1 ! j)"
      by simp
  next
    fix j :: nat assume "0 < j \<and> j < ?n \<and> (j - 1) div 2 = 0 \<and> (0::nat) < 0 \<and> 0 \<le> (0 - 1) div (2::nat)"
    then show "key (?h1 ! ((0 - 1) div 2)) \<le> key (?h1 ! j)" by simp
  qed
  have "heap_from key 0 ?n ?h2" using ex by (intro down_heap) simp_all
  then have hf: "heap_from key 0 ?n (take ?n ?h2)"
    unfolding heap_from_def
  proof (intro allI impI)
    fix j assume a: "\<forall>j. 0 < j \<and> j < ?n \<and> 0 \<le> (j - 1) div 2 \<longrightarrow> key (?h2 ! ((j - 1) div 2)) \<le> key (?h2 ! j)"
      and j: "0 < j \<and> j < ?n \<and> 0 \<le> (j - 1) div 2"
    then have "(j - 1) div 2 < ?n" by presburger
    with a j show "key (take ?n ?h2 ! ((j - 1) div 2)) \<le> key (take ?n ?h2 ! j)" by simp
  qed
  have "?h2 ! ?n = ?h1 ! ?n"
    by (simp add: down_fst down_loop_nth_ge)
  also have "\<dots> = h ! 0" by (rule s2)
  finally have "?h2 ! ?n = h ! 0" .
  with x h' hf n show ?thesis by simp
qed

lemma heap_root_min:
  assumes "heap_from key 0 (length h) h" and "j < length h"
  shows "key (h ! 0) \<le> key (h ! j)"
  using assms(2)
proof (induction j rule: less_induct)
  case (less j)
  show ?case
  proof (cases "j = 0")
    case True
    then show ?thesis by simp
  next
    case False
    then have p: "(j - 1) div 2 < j" by presburger
    with less.prems have "(j - 1) div 2 < length h" by simp
    from less.IH [OF p this] have "key (h ! 0) \<le> key (h ! ((j - 1) div 2))" .
    moreover from assms(1) False less.prems have "key (h ! ((j - 1) div 2)) \<le> key (h ! j)"
      by (simp add: heap_from_def)
    ultimately show ?thesis by simp
  qed
qed

lemma up_stop: "(j - 1) div 2 = j \<or> \<not> lt (h ! j) (h ! ((j - 1) div 2)) \<Longrightarrow> up lt h j = h"
  by (subst up.simps) (auto simp: Let_def)

lemma up_step:
  "(j - 1) div 2 \<noteq> j \<Longrightarrow> lt (h ! j) (h ! ((j - 1) div 2)) \<Longrightarrow>
     up lt h j = up lt (swap h ((j - 1) div 2) j) ((j - 1) div 2)"
  by (subst up.simps) (simp add: Let_def)

lemma up_heap:
  "j < n \<Longrightarrow> n \<le> length h \<Longrightarrow> heap_except_up key j n h \<Longrightarrow>
     heap_from key 0 n (up (\<lambda>a b. key a < key b) h j)"
proof (induction "(\<lambda>a b. key a < key b)" h j rule: up.induct)
  case (1 h j)
  let ?lt = "\<lambda>a b. key a < key b"
  define i where "i = (j - 1) div 2"
  from "1.prems"(3) have E1: "\<And>c. 0 < c \<Longrightarrow> c < n \<Longrightarrow> c \<noteq> j \<Longrightarrow> key (h ! ((c - 1) div 2)) \<le> key (h ! c)"
    and E2: "\<And>c. 0 < c \<Longrightarrow> c < n \<Longrightarrow> (c - 1) div 2 = j \<Longrightarrow> 0 < j
      \<Longrightarrow> key (h ! i) \<le> key (h ! c)"
    by (auto simp: heap_except_up_def i_def)
  show ?case
  proof (cases "i = j \<or> \<not> key (h ! j) < key (h ! i)")
    case True
    then have r: "up ?lt h j = h" unfolding i_def by (intro up_stop) simp
    have "heap_from key 0 n h"
      unfolding heap_from_def
    proof (intro allI impI)
      fix c assume c: "0 < c \<and> c < n \<and> 0 \<le> (c - 1) div 2"
      show "key (h ! ((c - 1) div 2)) \<le> key (h ! c)"
      proof (cases "c = j")
        case cj: True
        with c have "i \<noteq> j" unfolding i_def by presburger
        with True cj show ?thesis unfolding i_def by auto
      next
        case False
        with c E1 show ?thesis by blast
      qed
    qed
    with r show ?thesis by simp
  next
    case False
    then have ij: "i \<noteq> j" and l: "key (h ! j) < key (h ! i)" by auto
    from ij have j0: "0 < j" and ilt: "i < j" unfolding i_def by presburger+
    from False have r: "up ?lt h j = up ?lt (swap h i j) i"
      unfolding i_def by (intro up_step) auto
    from "1.prems"(1,2) ilt have il: "i < length h" and jl: "j < length h" by simp_all
    note sw = swap_nth [OF il jl]
    have ex: "heap_except_up key i n (swap h i j)"
      unfolding heap_except_up_def
    proof (intro conjI allI impI)
      fix c assume c: "0 < c \<and> c < n \<and> c \<noteq> i"
      define p where "p = (c - 1) div 2"
      from c have pc: "p < c" unfolding p_def by presburger
      show "key (swap h i j ! p) \<le> key (swap h i j ! c)"
      proof (cases "c = j")
        case True
        then have "p = i" by (simp add: p_def i_def)
        with True l ilt show ?thesis by (simp add: sw)
      next
        case cj: False
        show ?thesis
        proof (cases "p = j")
          case True
          with c E2 [of c] j0 have "key (h ! i) \<le> key (h ! c)" by (simp add: p_def)
          with True c cj show ?thesis by (simp add: sw)
        next
          case pj: False
          from c cj E1 [of c] have le: "key (h ! p) \<le> key (h ! c)" by (simp add: p_def)
          show ?thesis
          proof (cases "p = i")
            case True
            with le l have "key (h ! j) \<le> key (h ! c)" by simp
            with True c cj ilt show ?thesis by (simp add: sw)
          next
            case False
            with pj c cj le show ?thesis by (simp add: sw)
          qed
        qed
      qed
    next
      fix c assume c: "0 < c \<and> c < n \<and> (c - 1) div 2 = i \<and> 0 < i"
      define g where "g = (i - 1) div 2"
      from c have gi: "g < i" unfolding g_def by presburger
      with ilt have gne: "g \<noteq> j" "g \<noteq> i" by simp_all
      from c ilt "1.prems"(1) E1 [of i] have gi_le: "key (h ! g) \<le> key (h ! i)"
        by (simp add: g_def)
      from c have ci: "c \<noteq> i" by presburger
      show "key (swap h i j ! g) \<le> key (swap h i j ! c)"
      proof (cases "c = j")
        case True
        with gne gi_le show ?thesis by (simp add: sw)
      next
        case False
        with c E1 [of c] have "key (h ! i) \<le> key (h ! c)" by simp
        with gi_le have "key (h ! g) \<le> key (h ! c)" by simp
        with False ci gne show ?thesis by (simp add: sw)
      qed
    qed
    from ilt "1.prems"(1) have iN: "i < n" by simp
    from "1.prems"(2) have nl: "n \<le> length (swap h i j)" by simp
    from False have c1: "\<not> (i = j \<or> \<not> key (h ! j) < key (h ! i))" .
    from "1.hyps" [OF i_def c1 iN nl ex]
    have "heap_from key 0 n (up ?lt (swap h i j) i)" .
    with r show ?thesis by simp
  qed
qed

lemma heap_Push_heap:
  assumes "heap_from key 0 (length h) h"
  shows "heap_from key 0 (Suc (length h)) (heap_Push (\<lambda>a b. key a < key b) h x)"
    and "mset (heap_Push (\<lambda>a b. key a < key b) h x) = add_mset x (mset h)"
proof -
  let ?h = "h @ [x]"
  let ?n = "Suc (length h)"
  have ex: "heap_except_up key (length h) ?n ?h"
    unfolding heap_except_up_def
  proof (intro conjI allI impI)
    fix c assume c: "0 < c \<and> c < ?n \<and> c \<noteq> length h"
    then have cl: "c < length h" and pl: "(c - 1) div 2 < length h" by presburger+
    with c assms have "key (h ! ((c - 1) div 2)) \<le> key (h ! c)" by (simp add: heap_from_def)
    with cl pl show "key (?h ! ((c - 1) div 2)) \<le> key (?h ! c)" by (simp add: nth_append)
  next
    fix c :: nat assume "0 < c \<and> c < ?n \<and> (c - 1) div 2 = length h \<and> 0 < length h"
    then have False by presburger
    then show "key (?h ! ((length h - 1) div 2)) \<le> key (?h ! c)" ..
  qed
  from up_heap [OF _ _ ex] show "heap_from key 0 ?n (heap_Push (\<lambda>a b. key a < key b) h x)"
    by (simp add: heap_Push_def)
  show "mset (heap_Push (\<lambda>a b. key a < key b) h x) = add_mset x (mset h)"
    by (simp add: heap_Push_def up_mset)
qed

lemma heap_Pop_Some: "hp \<noteq> [] \<Longrightarrow> \<exists>x hp'. heap_Pop lt hp = Some (x, hp')"
  by (simp add: heap_Pop_def Let_def)

subsection \<open>The heap functions depend on \<open>lt\<close> only through the elements of the slice\<close>

lemma swap_set: "i < length h \<Longrightarrow> j < length h \<Longrightarrow> set (swap h i j) = set h"
  using swap_mset [of i h j] by (metis mset_eq_setD)

lemma down_loop_cong:
  "n \<le> length h \<Longrightarrow> (\<forall>a \<in> set h. \<forall>b \<in> set h. lt a b = lt' a b) \<Longrightarrow>
     down_loop lt h i n = down_loop lt' h i n"
proof (induction "n - i" arbitrary: h i rule: less_induct)
  case less
  show ?case
  proof (cases "n \<le> 2 * i + 1")
    case True
    then show ?thesis by (simp add: down_loop_stop)
  next
    case False
    define j1 where "j1 = 2 * i + 1"
    from False have j1n: "j1 < n" by (simp add: j1_def)
    define j where "j = (if j1 + 1 < n \<and> lt (h ! (j1 + 1)) (h ! j1) then j1 + 1 else j1)"
    have eq: "\<And>a b. a < n \<Longrightarrow> b < n \<Longrightarrow> lt (h ! a) (h ! b) = lt' (h ! a) (h ! b)"
      using less.prems by simp
    have j': "j = (if j1 + 1 < n \<and> lt' (h ! (j1 + 1)) (h ! j1) then j1 + 1 else j1)"
      using j1n eq [of "j1 + 1" j1] by (auto simp: j_def)
    have jn: "j < n" using j1n by (auto simp: j_def)
    have ij: "i < j" by (auto simp: j_def j1_def)
    have i_n: "i < n" using j1n by (simp add: j1_def)
    have lij: "lt (h ! j) (h ! i) = lt' (h ! j) (h ! i)" using eq [OF jn i_n] .
    have a: "down_loop lt h i n = (if \<not> lt (h ! j) (h ! i) then (h, i) else down_loop lt (swap h i j) j n)"
      by (rule down_loop_step) (use j1n in \<open>simp_all add: j_def j1_def\<close>)
    have b: "down_loop lt' h i n = (if \<not> lt' (h ! j) (h ! i) then (h, i) else down_loop lt' (swap h i j) j n)"
      by (rule down_loop_step) (use j1n in \<open>simp_all add: j' j1_def\<close>)
    have st: "set (swap h i j) = set h"
      using swap_set [of i h j] i_n jn less.prems(1) by simp
    have "down_loop lt (swap h i j) j n = down_loop lt' (swap h i j) j n"
      by (rule less.hyps) (use ij jn less.prems st in simp_all)
    with a b lij show ?thesis by simp
  qed
qed

lemma up_cong:
  "j < length h \<Longrightarrow> (\<forall>a \<in> set h. \<forall>b \<in> set h. lt a b = lt' a b) \<Longrightarrow>
     up lt h j = up lt' h j"
proof (induction j arbitrary: h rule: less_induct)
  case (less j)
  define i where "i = (j - 1) div 2"
  have il: "i < length h" using less.prems(1) by (simp add: i_def)
  have lij: "lt (h ! j) (h ! i) = lt' (h ! j) (h ! i)"
    using less.prems il by simp
  show ?case
  proof (cases "i = j \<or> \<not> lt (h ! j) (h ! i)")
    case True
    then have "up lt h j = h" by (intro up_stop) (auto simp: i_def)
    moreover from True lij have "up lt' h j = h" by (intro up_stop) (auto simp: i_def)
    ultimately show ?thesis by simp
  next
    case False
    then have ne: "i \<noteq> j" and l: "lt (h ! j) (h ! i)" by auto
    from ne have ilt: "i < j" by (simp add: i_def)
    have a: "up lt h j = up lt (swap h i j) i"
      unfolding i_def by (rule up_step) (use ne l in \<open>simp_all add: i_def\<close>)
    have b: "up lt' h j = up lt' (swap h i j) i"
      unfolding i_def by (rule up_step) (use ne l lij in \<open>simp_all add: i_def\<close>)
    have st: "set (swap h i j) = set h"
      using swap_set [of i h j] il less.prems(1) by simp
    have "up lt (swap h i j) i = up lt' (swap h i j) i"
      by (rule less.IH) (use ilt il less.prems st in simp_all)
    with a b show ?thesis by simp
  qed
qed

lemma heap_Push_cong:
  "(\<forall>a \<in> insert x (set h). \<forall>b \<in> insert x (set h). lt a b = lt' a b) \<Longrightarrow>
     heap_Push lt h x = heap_Push lt' h x"
  unfolding heap_Push_def by (rule up_cong) simp_all

lemma heap_Fix_0_cong:
  "(\<forall>a \<in> set h. \<forall>b \<in> set h. lt a b = lt' a b) \<Longrightarrow> heap_Fix lt h 0 = heap_Fix lt' h 0"
  by (simp add: heap_Fix_0 down_fst down_loop_cong [of "length h" h lt lt'])

lemma heap_Pop_cong:
  assumes "\<forall>a \<in> set h. \<forall>b \<in> set h. lt a b = lt' a b"
  shows "heap_Pop lt h = heap_Pop lt' h"
proof (cases "h = []")
  case True
  then show ?thesis by (simp add: heap_Pop_def)
next
  case False
  let ?n = "length h - 1"
  from False have n: "?n < length h" by (cases h) simp_all
  from False have z: "0 < length h" by simp
  have "set (swap h 0 ?n) = set h" using swap_set [OF z n] .
  with assms have "down_loop lt (swap h 0 ?n) 0 ?n = down_loop lt' (swap h 0 ?n) 0 ?n"
    by (intro down_loop_cong) simp_all
  then show ?thesis by (simp add: heap_Pop_def down_fst Let_def)
qed

section \<open>Correctness of the disjunction iterator\<close>

lemma iterLess_eq: "iterLess = (\<lambda>a b. slice_DocID a < slice_DocID b)"
  by (intro ext) (simp add: iterLess_def)

lemma valid_key:
  assumes "valid_it it"
  shows "slice_DocID it = Min (avail it)" and "slice_DocID it \<in> avail it"
    and "\<forall>x \<in> avail it. slice_DocID it \<le> x"
proof -
  from assms have s: "sorted (docIDs it)" and n: "nat (pos it) < length (docIDs it)"
    by (auto simp: valid_it_def)
  from sorted_drop_Min [OF s n] show m: "slice_DocID it = Min (avail it)"
    by (simp add: slice_DocID_def avail_def)
  from n have "avail it \<noteq> {}" by (simp add: avail_def)
  moreover have "finite (avail it)" by (simp add: avail_def)
  ultimately show "slice_DocID it \<in> avail it" "\<forall>x \<in> avail it. slice_DocID it \<le> x"
    using m by simp_all
qed

lemma slice_Next_valid_avail:
  assumes "valid_it it" and "slice_Next it = (b, it')"
  shows "avail it = insert (slice_DocID it) (avail it')"
    and "b \<Longrightarrow> valid_it it'" and "\<not> b \<Longrightarrow> avail it' = {}"
proof -
  from assms(1) have s: "sorted (docIDs it)" and p: "0 \<le> pos it"
    and n: "nat (pos it) < length (docIDs it)"
    by (auto simp: valid_it_def)
  from assms(2) have it': "it' = it\<lparr>pos := pos it + 1\<rparr>"
    and b: "b \<longleftrightarrow> pos it + 1 < int (length (docIDs it))"
    by (auto simp: slice_Next_def Let_def)
  from p have suc: "nat (pos it + 1) = Suc (nat (pos it))" by linarith
  from n have "drop (nat (pos it)) (docIDs it)
      = docIDs it ! nat (pos it) # drop (Suc (nat (pos it))) (docIDs it)"
    by (simp add: Cons_nth_drop_Suc)
  with it' suc show "avail it = insert (slice_DocID it) (avail it')"
    by (simp add: avail_def slice_DocID_def)
  from it' b s p show "b \<Longrightarrow> valid_it it'" by (simp add: valid_it_def)
  from it' b show "\<not> b \<Longrightarrow> avail it' = {}" by (simp add: avail_def)
qed

lemma Union_avail_Cons [simp]: "Union_avail (it # hp) = avail it \<union> Union_avail hp"
  by (simp add: Union_avail_def)

lemma Union_avail_Nil [simp]: "Union_avail [] = {}"
  by (simp add: Union_avail_def)

lemma Union_avail_mset:
  assumes "mset hp = mset hp'"
  shows "Union_avail hp = Union_avail hp'"
proof -
  from assms have "set hp = set hp'" by (rule mset_eq_setD)
  then show ?thesis by (simp only: Union_avail_def)
qed

lemma disj_inv_keys:
  assumes "disj_inv hp" and "it \<in> set hp"
  shows "slice_DocID (hp ! 0) \<le> slice_DocID it"
proof -
  from assms(2) obtain j where j: "j < length hp" "hp ! j = it" by (auto simp: in_set_conv_nth)
  from assms(1) have hf: "heap_from slice_DocID 0 (length hp) hp" by (simp add: disj_inv_def)
  from heap_root_min [OF hf j(1)] have "slice_DocID (hp ! 0) \<le> slice_DocID (hp ! j)" .
  then show ?thesis by (simp only: j(2))
qed

lemma replace_root_inv:
  assumes "disj_inv (tp # rest)"
  shows "heap_except slice_DocID 0 0 (length (tp' # rest)) (tp' # rest)"
proof -
  from assms have "heap_from slice_DocID 0 (length (tp # rest)) (tp # rest)"
    by (simp add: disj_inv_def)
  from heap_from_update_root [OF this, of tp'] show ?thesis by simp
qed

lemma next_loop_stop:
  "\<not> (hp \<noteq> [] \<and> slice_DocID (hp ! 0) = cur) \<Longrightarrow> next_loop cur hp = Some hp"
  by (subst next_loop.simps) auto

lemma next_loop_Fix:
  "hp \<noteq> [] \<Longrightarrow> slice_DocID (hp ! 0) = cur \<Longrightarrow> slice_Next (hp ! 0) = (True, tp') \<Longrightarrow>
     next_loop cur hp = next_loop cur (heap_Fix iterLess (hp[0 := tp']) 0)"
  by (subst next_loop.simps) simp

lemma next_loop_Pop:
  "hp \<noteq> [] \<Longrightarrow> slice_DocID (hp ! 0) = cur \<Longrightarrow> slice_Next (hp ! 0) = (False, tp') \<Longrightarrow>
     heap_Pop iterLess (hp[0 := tp']) = Some (x, hp') \<Longrightarrow>
     next_loop cur hp = next_loop cur hp'"
  by (subst next_loop.simps) simp

lemma next_loop_spec:
  "disj_inv hp \<Longrightarrow> \<forall>it \<in> set hp. cur \<le> slice_DocID it \<Longrightarrow>
     \<exists>hp'. next_loop cur hp = Some hp' \<and> disj_inv hp'
       \<and> Union_avail hp' - {cur} = Union_avail hp - {cur}
       \<and> (\<forall>it \<in> set hp'. cur < slice_DocID it)"
proof (induction cur hp rule: next_loop.induct)
  case (1 cur hp)
  show ?case
  proof (cases "hp \<noteq> [] \<and> slice_DocID (hp ! 0) = cur")
    case False
    then have r: "next_loop cur hp = Some hp" by (rule next_loop_stop)
    have "\<forall>it \<in> set hp. cur < slice_DocID it"
    proof
      fix it assume it: "it \<in> set hp"
      then have ne: "hp \<noteq> []" by auto
      then have "hp ! 0 \<in> set hp" by simp
      with "1.prems"(2) have "cur \<le> slice_DocID (hp ! 0)" by blast
      with False ne have "cur < slice_DocID (hp ! 0)" by simp
      with disj_inv_keys [OF "1.prems"(1) it] show "cur < slice_DocID it" by simp
    qed
    with r "1.prems"(1) show ?thesis by simp
  next
    case True
    then obtain tp rest where hp: "hp = tp # rest" by (cases hp) auto
    with True have key: "slice_DocID tp = cur" by simp
    from "1.prems"(1) hp have vtop: "valid_it tp" and vrest: "\<forall>it \<in> set rest. valid_it it"
      by (simp_all add: disj_inv_def)
    obtain b tp' where n: "slice_Next tp = (b, tp')" by (cases "slice_Next tp")
    note N = slice_Next_valid_avail [OF vtop n]
    from N(1) key have av: "avail tp = insert cur (avail tp')" by simp
    let ?h1 = "tp' # rest"
    from hp have h1: "hp[0 := tp'] = ?h1" by simp
    from "1.prems"(1) hp have ex: "heap_except slice_DocID 0 0 (length ?h1) ?h1"
      by (intro replace_root_inv) simp
    show ?thesis
    proof (cases b)
      case b: True
      let ?h2 = "heap_Fix iterLess ?h1 0"
      from True n b hp have unf: "next_loop cur hp = next_loop cur ?h2"
        using next_loop_Fix [of hp cur tp'] by simp
      have ms: "mset ?h2 = mset ?h1" by (rule heap_Fix_0_mset)
      then have st: "set ?h2 = set ?h1" by (rule mset_eq_setD)
      have len: "length ?h2 = length ?h1" using ms by (rule mset_eq_length)
      from N(2) b have vtop': "valid_it tp'" by simp
      from heap_Fix_root_heap [OF ex] len
      have "heap_from slice_DocID 0 (length ?h2) ?h2" by (simp add: iterLess_eq)
      with st vtop' vrest have inv2: "disj_inv ?h2" by (simp add: disj_inv_def)
      from valid_key(2) [OF vtop'] av have "cur \<le> slice_DocID tp'"
        using valid_key(3) [OF vtop] key by auto
      with st "1.prems"(2) hp have keys2: "\<forall>it \<in> set ?h2. cur \<le> slice_DocID it" by simp
      have n0: "slice_Next (hp ! 0) = (b, tp')" using n hp by simp
      from inv2 keys2 h1
      have i2: "disj_inv (heap_Fix iterLess (hp[0 := tp']) 0)"
        and k2: "\<forall>it \<in> set (heap_Fix iterLess (hp[0 := tp']) 0). cur \<le> slice_DocID it"
        by simp_all
      from b have bT: "b = True" by simp
      from "1.IH"(1) [OF True n0 [symmetric] bT i2 k2] h1
      have "\<exists>hp'. next_loop cur ?h2 = Some hp' \<and> disj_inv hp'
          \<and> Union_avail hp' - {cur} = Union_avail ?h2 - {cur}
          \<and> (\<forall>it \<in> set hp'. cur < slice_DocID it)"
        by simp
      moreover have "Union_avail ?h2 - {cur} = Union_avail hp - {cur}"
        using Union_avail_mset [OF ms] av hp by auto
      ultimately show ?thesis using unf by auto
    next
      case nb: False
      obtain x h' where pop: "heap_Pop iterLess ?h1 = Some (x, h')"
        using heap_Pop_Some [of ?h1 iterLess] by auto
      from True n nb hp pop have unf: "next_loop cur hp = next_loop cur h'"
        using next_loop_Pop [of hp cur tp' x h'] by simp
      from pop have pop': "heap_Pop (\<lambda>a b. slice_DocID a < slice_DocID b) ?h1 = Some (x, h')"
        by (simp add: iterLess_eq)
      from heap_Pop_heap [OF ex pop'] have hf: "heap_from slice_DocID 0 (length h') h'"
        and x: "x = tp'" by auto
      from heap_Pop_mset [OF pop] x have ms: "mset h' = mset rest" by simp
      then have st: "set h' = set rest" by (rule mset_eq_setD)
      from hf st vrest have inv': "disj_inv h'" by (simp add: disj_inv_def)
      from st "1.prems"(2) hp have keys': "\<forall>it \<in> set h'. cur \<le> slice_DocID it" by simp
      have n0: "slice_Next (hp ! 0) = (b, tp')" using n hp by simp
      from pop h1 have pop0: "heap_Pop iterLess (hp[0 := tp']) = Some (x, h')" by simp
      from nb have bF: "b = False" by simp
      from "1.IH"(2) [OF True n0 [symmetric] bF pop0 refl inv' keys']
      have "\<exists>hp'. next_loop cur h' = Some hp' \<and> disj_inv hp'
          \<and> Union_avail hp' - {cur} = Union_avail h' - {cur}
          \<and> (\<forall>it \<in> set hp'. cur < slice_DocID it)" .
      moreover from N(3) nb av have "avail tp = {cur}" by simp
      then have "Union_avail h' - {cur} = Union_avail hp - {cur}"
        using Union_avail_mset [OF ms] hp by auto
      ultimately show ?thesis using unf by auto
    qed
  qed
qed

lemma Union_avail_finite: "finite (Union_avail hp)"
  by (simp add: Union_avail_def avail_def)

lemma disj_root_Min:
  assumes "disj_inv hp" and "hp \<noteq> []"
  shows "slice_DocID (hp ! 0) = Min (Union_avail hp)"
proof (rule Min_eqI [symmetric])
  show "finite (Union_avail hp)" by (rule Union_avail_finite)
next
  fix y assume "y \<in> Union_avail hp"
  then obtain it where it: "it \<in> set hp" "y \<in> avail it" by (auto simp: Union_avail_def)
  from assms(1) it(1) have "valid_it it" by (simp add: disj_inv_def)
  from valid_key(3) [OF this] it(2) have "slice_DocID it \<le> y" by blast
  with disj_inv_keys [OF assms(1) it(1)] show "slice_DocID (hp ! 0) \<le> y" by simp
next
  from assms(2) have m: "hp ! 0 \<in> set hp" by simp
  with assms(1) have "valid_it (hp ! 0)" by (simp add: disj_inv_def)
  from valid_key(2) [OF this] m show "slice_DocID (hp ! 0) \<in> Union_avail hp"
    by (auto simp: Union_avail_def)
qed

lemma disj_Next_spec:
  assumes "disj_inv (dh d)"
  shows "(dh d = [] \<longrightarrow> disj_Next d = Some (False, d) \<and> Union_avail (dh d) = {})
    \<and> (dh d \<noteq> [] \<longrightarrow>
         (\<exists>d'. disj_Next d = Some (True, d') \<and> disj_inv (dh d')
            \<and> Union_avail (dh d) \<noteq> {}
            \<and> disj_DocID d' = Min (Union_avail (dh d))
            \<and> Union_avail (dh d') = Union_avail (dh d) - {Min (Union_avail (dh d))}))"
proof (rule conjI; rule impI)
  assume "dh d = []"
  then show "disj_Next d = Some (False, d) \<and> Union_avail (dh d) = {}"
    by (simp add: disj_Next_def)
next
  assume ne: "dh d \<noteq> []"
  let ?hp = "dh d"
  let ?cur = "slice_DocID (?hp ! 0)"
  have keys: "\<forall>it \<in> set ?hp. ?cur \<le> slice_DocID it"
    using disj_inv_keys [OF assms] by blast
  from next_loop_spec [OF assms keys] obtain hp' where
    nl: "next_loop ?cur ?hp = Some hp'" and inv': "disj_inv hp'"
    and un: "Union_avail hp' - {?cur} = Union_avail ?hp - {?cur}"
    and gt: "\<forall>it \<in> set hp'. ?cur < slice_DocID it"
    by blast
  have "?cur \<notin> Union_avail hp'"
  proof
    assume "?cur \<in> Union_avail hp'"
    then obtain it where it: "it \<in> set hp'" "?cur \<in> avail it" by (auto simp: Union_avail_def)
    from inv' it(1) have "valid_it it" by (simp add: disj_inv_def)
    from valid_key(3) [OF this] it(2) have "slice_DocID it \<le> ?cur" by blast
    with gt it(1) show False by auto
  qed
  with un have un': "Union_avail hp' = Union_avail ?hp - {?cur}" by blast
  from disj_root_Min [OF assms ne] have m: "?cur = Min (Union_avail ?hp)" .
  from ne have "?hp ! 0 \<in> set ?hp" by simp
  with assms have "valid_it (?hp ! 0)" by (simp add: disj_inv_def)
  from valid_key(2) [OF this] ne have nonempty: "Union_avail ?hp \<noteq> {}"
    by (cases ?hp) auto
  let ?d' = "d\<lparr>dcurrent := ?cur, dh := hp'\<rparr>"
  from ne nl have "disj_Next d = Some (True, ?d')" by (simp add: disj_Next_def Let_def)
  moreover have "disj_inv (dh ?d')" using inv' by simp
  moreover have "disj_DocID ?d' = Min (Union_avail ?hp)" using m by (simp add: disj_DocID_def)
  moreover have "Union_avail (dh ?d') = Union_avail ?hp - {Min (Union_avail ?hp)}"
    using un' m by simp
  ultimately show "\<exists>d'. disj_Next d = Some (True, d') \<and> disj_inv (dh d')
            \<and> Union_avail (dh d) \<noteq> {}
            \<and> disj_DocID d' = Min (Union_avail (dh d))
            \<and> Union_avail (dh d') = Union_avail (dh d) - {Min (Union_avail (dh d))}"
    using nonempty by blast
qed

lemma disj_drain_spec:
  "disj_inv (dh d) \<Longrightarrow> disj_drain d = Some (sorted_list_of_set (Union_avail (dh d)))"
proof (induction d rule: disj_drain.induct)
  case (1 d)
  note S = disj_Next_spec [OF "1.prems"]
  show ?case
  proof (cases "dh d = []")
    case True
    with S have "disj_Next d = Some (False, d)" "Union_avail (dh d) = {}" by simp_all
    then show ?thesis by (subst disj_drain.simps) simp
  next
    case False
    with S obtain d' where n: "disj_Next d = Some (True, d')" and inv': "disj_inv (dh d')"
      and ne: "Union_avail (dh d) \<noteq> {}"
      and c: "disj_DocID d' = Min (Union_avail (dh d))"
      and u: "Union_avail (dh d') = Union_avail (dh d) - {Min (Union_avail (dh d))}"
      by blast
    from "1.IH" [OF n refl _ inv'] have "disj_drain d' = Some (sorted_list_of_set (Union_avail (dh d')))"
      by simp
    with n have "disj_drain d = Some (disj_DocID d' # sorted_list_of_set (Union_avail (dh d')))"
      by (subst disj_drain.simps) simp
    with c u ne Union_avail_finite [of "dh d"] show ?thesis
      by (simp add: sorted_list_of_set_nonempty)
  qed
qed

lemma init_children_spec:
  "\<forall>ch \<in> set children. pos ch = - 1 \<and> sorted (docIDs ch) \<Longrightarrow>
     (\<forall>it \<in> set (init_children children). valid_it it)
     \<and> Union_avail (init_children children) = (\<Union>ch \<in> set children. set (docIDs ch))"
proof (induction children)
  case Nil
  then show ?case by simp
next
  case (Cons ch children)
  from Cons.prems have p: "pos ch = - 1" and s: "sorted (docIDs ch)" by simp_all
  obtain b ch' where n: "slice_Next ch = (b, ch')" by (cases "slice_Next ch")
  with p have ch': "ch' = ch\<lparr>pos := 0\<rparr>" and b: "b \<longleftrightarrow> docIDs ch \<noteq> []"
    by (auto simp: slice_Next_def Let_def)
  from Cons have IH: "(\<forall>it \<in> set (init_children children). valid_it it)
     \<and> Union_avail (init_children children) = (\<Union>ch \<in> set children. set (docIDs ch))"
    by simp
  show ?case
  proof (cases b)
    case True
    with ch' b s have "valid_it ch'" "avail ch' = set (docIDs ch)"
      by (simp_all add: valid_it_def avail_def)
    with True n IH show ?thesis by simp
  next
    case False
    with b have "set (docIDs ch) = {}" by simp
    with False n IH show ?thesis by simp
  qed
qed

text \<open>
  Claim C6. A disjunction built by \<^verbatim>\<open>NewDisjunctionIterator\<close> over fresh slice iterators
  (cursor at -1) whose doc ids are ascending emits, by repeated \<^verbatim>\<open>Next\<close> until
  exhaustion and without a panic, exactly the ascending list of the union of the
  children's doc-id sets; the list has no duplicates, in whatever number of children a
  doc id occurs.
\<close>

theorem Disjunction_emits_sorted_union:
  assumes "\<forall>ch \<in> set children. pos ch = - 1 \<and> sorted (docIDs ch)"
  shows "disj_drain (NewDisjunctionIterator children)
           = Some (sorted_list_of_set (\<Union>ch \<in> set children. set (docIDs ch)))
    \<and> (\<forall>ids. disj_drain (NewDisjunctionIterator children) = Some ids \<longrightarrow> distinct ids)"
proof -
  let ?hs = "init_children children"
  let ?hp = "heap_Init iterLess ?hs"
  from init_children_spec [OF assms] have v: "\<forall>it \<in> set ?hs. valid_it it"
    and u: "Union_avail ?hs = (\<Union>ch \<in> set children. set (docIDs ch))"
    by simp_all
  from heap_Init_heap [of slice_DocID ?hs]
  have hf: "heap_from slice_DocID 0 (length ?hs) ?hp" and ms: "mset ?hp = mset ?hs"
    by (simp_all add: iterLess_eq)
  from ms have len: "length ?hp = length ?hs" by (rule mset_eq_length)
  from ms have st: "set ?hp = set ?hs" by (rule mset_eq_setD)
  from hf len st v have inv: "disj_inv ?hp" by (simp add: disj_inv_def)
  have "dh (NewDisjunctionIterator children) = ?hp" by (simp add: NewDisjunctionIterator_def)
  with disj_drain_spec [of "NewDisjunctionIterator children"] inv
  have "disj_drain (NewDisjunctionIterator children) = Some (sorted_list_of_set (Union_avail ?hp))"
    by simp
  with Union_avail_mset [OF ms] u
  have "disj_drain (NewDisjunctionIterator children)
           = Some (sorted_list_of_set (\<Union>ch \<in> set children. set (docIDs ch)))"
    by simp
  then show ?thesis by simp
qed

theorem Disjunction_emits_sorted_union_witness:
  "disj_drain (NewDisjunctionIterator
     [NewSlicePostingsIterator [1, 5, 9] None,
      NewSlicePostingsIterator [2, 5, 7, 9, 11] (Some [1, 1, 2, 1, 1]),
      NewSlicePostingsIterator [] None,
      NewSlicePostingsIterator [0, 1] None])
     = Some (sorted_list_of_set (set [1, 5, 9] \<union> set [2, 5, 7, 9, 11] \<union> set [] \<union> set [0, 1]))
   \<and> disj_drain (NewDisjunctionIterator
     [NewSlicePostingsIterator [1, 5, 9] None,
      NewSlicePostingsIterator [2, 5, 7, 9, 11] (Some [1, 1, 2, 1, 1]),
      NewSlicePostingsIterator [] None,
      NewSlicePostingsIterator [0, 1] None]) = Some [0, 1, 2, 5, 7, 9, 11]"
proof -
  let ?cs = "[NewSlicePostingsIterator [1, 5, 9] None,
      NewSlicePostingsIterator [2, 5, 7, 9, 11] (Some [1, 1, 2, 1, 1]),
      NewSlicePostingsIterator [] None,
      NewSlicePostingsIterator [0, 1] None]"
  have h: "\<forall>ch \<in> set ?cs. pos ch = - 1 \<and> sorted (docIDs ch)"
    by (simp add: NewSlicePostingsIterator_def)
  have i: "(\<Union>ch \<in> set ?cs. set (docIDs ch))
      = set [1, 5, 9] \<union> set [2, 5, 7, 9, 11] \<union> set [] \<union> set [0, 1]"
    by (simp add: NewSlicePostingsIterator_def Un_assoc)
  from Disjunction_emits_sorted_union [OF h]
  have d: "disj_drain (NewDisjunctionIterator ?cs)
      = Some (sorted_list_of_set (\<Union>ch \<in> set ?cs. set (docIDs ch)))"
    by blast
  have e: "disj_drain (NewDisjunctionIterator ?cs) = Some [0, 1, 2, 5, 7, 9, 11]"
    by code_simp
  from d e i show ?thesis by simp
qed

section \<open>The collector retains the highest-scoring documents\<close>

lemma rank_inj: "a \<noteq> NaN \<Longrightarrow> b \<noteq> NaN \<Longrightarrow> rank a = rank b \<longleftrightarrow> a = b"
  by (cases a; cases b) simp_all

lemma f32_less_rank: "a \<noteq> NaN \<Longrightarrow> b \<noteq> NaN \<Longrightarrow> f32_less a b \<longleftrightarrow> rank a < rank b"
  by (cases a; cases b) simp_all

lemma f32_le_rank: "a \<noteq> NaN \<Longrightarrow> b \<noteq> NaN \<Longrightarrow> f32_le a b \<longleftrightarrow> rank a \<le> rank b"
  by (cases a; cases b) simp_all

lemma scoreLess_agree:
  "\<forall>y \<in> S. Score y \<noteq> NaN \<Longrightarrow>
     \<forall>a \<in> S. \<forall>b \<in> S. scoreLess a b = (score_rank a < score_rank b)"
  by (simp add: scoreLess_def score_rank_def f32_less_rank)

lemma heap_from_except_root: "heap_from key 0 n h \<Longrightarrow> heap_except key 0 0 n h"
  using heap_from_update_root [of key n h "h ! 0"] by simp

lemma heap_root_min_set:
  assumes "heap_from key 0 (length h) h" and "y \<in> set h"
  shows "key (h ! 0) \<le> key y"
proof -
  from assms(2) obtain j where j: "j < length h" "h ! j = y" by (auto simp: in_set_conv_nth)
  from heap_root_min [OF assms(1) j(1)] have "key (h ! 0) \<le> key (h ! j)" .
  then show ?thesis by (simp only: j(2))
qed

subsection \<open>Whatever the scores, nothing panics and the heap holds at most \<open>k\<close> documents\<close>

lemma heap_Push_length: "length (heap_Push lt h x) = Suc (length h)"
  by (simp add: heap_Push_def)

lemma heap_Fix_0_length: "length (heap_Fix lt h 0) = length h"
  by (simp add: heap_Fix_0)

lemma Collect_length:
  "length (tk_h (Collect c d s))
     = (if int (length (tk_h c)) < tk_k c then Suc (length (tk_h c)) else length (tk_h c))"
  by (simp add: Collect_def Let_def heap_Push_length heap_Fix_0_length)

lemma Collect_k: "tk_k (Collect c d s) = tk_k c"
  by (simp add: Collect_def Let_def)

lemma collect_all_k: "tk_k (collect_all c docs) = tk_k c"
  by (induction c docs rule: collect_all.induct) (simp_all add: Collect_k)

lemma collect_all_length:
  "0 \<le> tk_k c \<Longrightarrow> int (length (tk_h c)) \<le> tk_k c \<Longrightarrow>
     int (length (tk_h (collect_all c docs)))
       = min (tk_k c) (int (length (tk_h c)) + int (length docs))"
proof (induction c docs rule: collect_all.induct)
  case (1 c)
  then show ?case by simp
next
  case (2 c d s ds)
  let ?c = "Collect c d s"
  have k: "tk_k ?c = tk_k c" by (rule Collect_k)
  have l: "length (tk_h ?c)
     = (if int (length (tk_h c)) < tk_k c then Suc (length (tk_h c)) else length (tk_h c))"
    by (rule Collect_length)
  from l 2(3) have le: "int (length (tk_h ?c)) \<le> tk_k ?c" by (simp add: k)
  from 2(2) have k0: "0 \<le> tk_k ?c" by (simp add: k)
  from 2(1) [OF k0 le]
  have "int (length (tk_h (collect_all ?c ds)))
     = min (tk_k c) (int (length (tk_h ?c)) + int (length ds))"
    by (simp only: k)
  with l 2(3) show ?case by (simp split: if_splits)
qed

lemma heap_Pop_length:
  assumes "heap_Pop lt h = Some (x, h')"
  shows "Suc (length h') = length h"
proof -
  from heap_Pop_mset [OF assms] have "size (add_mset x (mset h')) = size (mset h)" by simp
  then show ?thesis by simp
qed

lemma results_loop_total:
  "n = length hp \<Longrightarrow> \<exists>rs. results_loop n hp acc = Some (rs @ acc, []) \<and> length rs = n"
proof (induction n arbitrary: hp acc)
  case 0
  then show ?case by simp
next
  case (Suc n)
  then have ne: "hp \<noteq> []" by auto
  then obtain x hp' where pop: "heap_Pop scoreLess hp = Some (x, hp')"
    using heap_Pop_Some [of hp scoreLess] by auto
  from heap_Pop_length [OF pop] Suc.prems have n: "n = length hp'" by simp
  from Suc.IH [OF n, of "x # acc"] obtain rs where
    r: "results_loop n hp' (x # acc) = Some (rs @ x # acc, [])" and lr: "length rs = n"
    by blast
  from pop r have "results_loop (Suc n) hp acc = Some ((rs @ [x]) @ acc, [])" by simp
  moreover from lr have "length (rs @ [x]) = Suc n" by simp
  ultimately show ?case by blast
qed

lemma Results_total:
  "\<exists>result. Results c = Some (result, c\<lparr>tk_h := []\<rparr>) \<and> length result = length (tk_h c)"
  using results_loop_total [OF refl, of "tk_h c" "[]"] by (auto simp: Results_def)

subsection \<open>With no NaN among the scores, the heap order is kept\<close>

lemma topk_inv_Collect:
  assumes "topk_inv c seen" and nn: "s \<noteq> NaN"
  shows "topk_inv (Collect c d s) (add_mset \<lparr>DocID = d, Score = s\<rparr> seen)"
proof -
  let ?sd = "\<lparr>DocID = d, Score = s\<rparr>"
  let ?h = "tk_h c"
  let ?lt = "\<lambda>a b. score_rank a < score_rank b"
  from assms have k0: "0 < tk_k c" and hf: "heap_from score_rank 0 (length ?h) ?h"
    and le: "int (length ?h) \<le> tk_k c"
    and ms: "int (length ?h) = tk_k c \<longrightarrow> tk_minScore c = Score (?h ! 0)"
    and hn: "\<forall>y \<in> set ?h. Score y \<noteq> NaN"
    by (simp_all add: topk_inv_def)
  from assms obtain dropped where seen: "seen = mset ?h + dropped"
    and dn: "int (length ?h) < tk_k c \<longrightarrow> dropped = {#}"
    and dl: "\<forall>x \<in># dropped. \<forall>y \<in> set ?h. score_rank x \<le> score_rank y"
    by (auto simp: topk_inv_def)
  from hn nn have hn': "\<forall>y \<in> insert ?sd (set ?h). Score y \<noteq> NaN" by simp
  show ?thesis
  proof (cases "int (length ?h) < tk_k c")
    case True
    let ?h1 = "heap_Push scoreLess ?h ?sd"
    have pe: "?h1 = heap_Push ?lt ?h ?sd"
      by (rule heap_Push_cong) (rule scoreLess_agree [OF hn'])
    from heap_Push_heap [OF hf, of ?sd]
    have hf1: "heap_from score_rank 0 (Suc (length ?h)) ?h1" and m1: "mset ?h1 = add_mset ?sd (mset ?h)"
      by (simp_all add: pe)
    from m1 have len1: "length ?h1 = Suc (length ?h)" using mset_eq_length [of ?h1 "?sd # ?h"] by simp
    from m1 have "set ?h1 = insert ?sd (set ?h)"
      by (metis mset_eq_setD set_mset_add_mset_insert set_mset_mset)
    with hn' have hn1: "\<forall>y \<in> set ?h1. Score y \<noteq> NaN" by simp
    from True dn have d0: "dropped = {#}" by simp
    have c': "Collect c d s = (if int (length ?h1) = tk_k c
        then c\<lparr>tk_h := ?h1, tk_minScore := Score (?h1 ! 0)\<rparr> else c\<lparr>tk_h := ?h1\<rparr>)"
      using True by (simp add: Collect_def Let_def)
    have "topk_inv (c\<lparr>tk_h := ?h1, tk_minScore := m\<rparr>) (add_mset ?sd seen)"
      if "int (length ?h1) = tk_k c \<longrightarrow> m = Score (?h1 ! 0)" for m
      unfolding topk_inv_def
      using that k0 hf1 len1 True seen d0 m1 hn1 by auto
    with c' show ?thesis by (cases "int (length ?h1) = tk_k c") (auto simp: topk_inv_def)
  next
    case False
    with le have full: "int (length ?h) = tk_k c" by simp
    with k0 have ne: "?h \<noteq> []" by auto
    from full ms have mn: "tk_minScore c = Score (?h ! 0)" by simp
    from ne hn have rn: "Score (?h ! 0) \<noteq> NaN" by simp
    have rootmin: "\<forall>y \<in> set ?h. score_rank (?h ! 0) \<le> score_rank y"
      using heap_root_min_set [OF hf] by blast
    have cmp: "f32_less (tk_minScore c) s \<longleftrightarrow> score_rank (?h ! 0) < score_rank ?sd"
      using f32_less_rank [OF rn nn] by (simp add: mn score_rank_def)
    show ?thesis
    proof (cases "f32_less (tk_minScore c) s")
      case gt: True
      let ?h1 = "?h[0 := ?sd]"
      let ?h2 = "heap_Fix scoreLess ?h1 0"
      from gt False have c': "Collect c d s = c\<lparr>tk_h := ?h2, tk_minScore := Score (?h2 ! 0)\<rparr>"
        by (simp add: Collect_def Let_def)
      have "set ?h1 \<subseteq> insert ?sd (set ?h)" by (rule set_update_subset_insert)
      with hn' have hn1: "\<forall>y \<in> set ?h1. Score y \<noteq> NaN" by blast
      have fe: "?h2 = heap_Fix ?lt ?h1 0"
        by (rule heap_Fix_0_cong) (rule scoreLess_agree [OF hn1])
      from heap_from_update_root [OF hf, of ?sd] have "heap_except score_rank 0 0 (length ?h1) ?h1"
        by simp
      from heap_Fix_root_heap [OF this] have hf2: "heap_from score_rank 0 (length ?h1) ?h2"
        by (simp add: fe)
      have m2: "mset ?h2 = mset ?h1" by (rule heap_Fix_0_mset)
      then have len2: "length ?h2 = length ?h" using mset_eq_length [of ?h2 ?h1] by simp
      from m2 have "set ?h2 = set ?h1" by (rule mset_eq_setD)
      with hn1 have hn2: "\<forall>y \<in> set ?h2. Score y \<noteq> NaN" by simp
      from ne obtain r rest where h: "?h = r # rest" by (cases ?h) auto
      then have m1: "mset ?h1 = add_mset ?sd (mset rest)" by simp
      from h have r0: "?h ! 0 = r" by simp
      let ?dropped' = "add_mset r dropped"
      have s': "add_mset ?sd seen = mset ?h2 + ?dropped'"
        using seen h m1 m2 by simp
      have st2: "set ?h2 = insert ?sd (set rest)"
        using m2 m1 by (metis mset_eq_setD set_mset_add_mset_insert set_mset_mset)
      have dl': "\<forall>x \<in># ?dropped'. \<forall>y \<in> set ?h2. score_rank x \<le> score_rank y"
      proof (intro ballI)
        fix x y assume x: "x \<in># ?dropped'" and y: "y \<in> set ?h2"
        have xr: "score_rank x \<le> score_rank r"
        proof (cases "x = r")
          case True then show ?thesis by simp
        next
          case False
          with x have "x \<in># dropped" by simp
          with dl h show ?thesis by simp
        qed
        from y st2 have "y = ?sd \<or> y \<in> set rest" by auto
        then show "score_rank x \<le> score_rank y"
        proof
          assume "y = ?sd"
          moreover from gt cmp r0 have "score_rank r < score_rank ?sd" by simp
          ultimately show ?thesis using xr by simp
        next
          assume "y \<in> set rest"
          with rootmin h r0 have "score_rank r \<le> score_rank y" by simp
          with xr show ?thesis by simp
        qed
      qed
      show ?thesis
        unfolding topk_inv_def c'
        using k0 hf2 len2 full s' dl' hn2 by auto
    next
      case ngt: False
      with False have c': "Collect c d s = c" by (simp add: Collect_def)
      let ?dropped' = "add_mset ?sd dropped"
      have s': "add_mset ?sd seen = mset ?h + ?dropped'" using seen by simp
      from ngt cmp have sle: "score_rank ?sd \<le> score_rank (?h ! 0)" by simp
      have dl': "\<forall>x \<in># ?dropped'. \<forall>y \<in> set ?h. score_rank x \<le> score_rank y"
      proof (intro ballI)
        fix x y assume x: "x \<in># ?dropped'" and y: "y \<in> set ?h"
        show "score_rank x \<le> score_rank y"
        proof (cases "x = ?sd")
          case True
          from rootmin y have "score_rank (?h ! 0) \<le> score_rank y" by simp
          with sle True show ?thesis by simp
        next
          case False
          with x have "x \<in># dropped" by simp
          with dl y show ?thesis by simp
        qed
      qed
      show ?thesis
        unfolding topk_inv_def c'
        using k0 hf le ms full s' dl' hn by auto
    qed
  qed
qed

lemma topk_inv_collect_all:
  "topk_inv c seen \<Longrightarrow> \<forall>(d, s) \<in> set docs. s \<noteq> NaN \<Longrightarrow>
     topk_inv (collect_all c docs) (seen + mset (scored docs))"
proof (induction docs arbitrary: c seen)
  case Nil
  then show ?case by (simp add: scored_def)
next
  case (Cons ds docs)
  obtain d s where ds: "ds = (d, s)" by (cases ds)
  with Cons.prems(2) have nn: "s \<noteq> NaN" and rest: "\<forall>(d, s) \<in> set docs. s \<noteq> NaN" by auto
  from topk_inv_Collect [OF Cons.prems(1) nn, of d]
  have "topk_inv (Collect c d s) (add_mset \<lparr>DocID = d, Score = s\<rparr> seen)" .
  from Cons.IH [OF this rest] ds show ?case
    by (simp add: scored_def)
qed

lemma sorted_rev_map:
  "sorted (rev (map f xs)) \<longleftrightarrow> sorted_wrt (\<lambda>a b. f b \<le> f a) xs"
  by (induction xs) (auto simp: sorted_append)

lemma results_loop_spec:
  "heap_from score_rank 0 (length hp) hp \<Longrightarrow> \<forall>y \<in> set hp. Score y \<noteq> NaN \<Longrightarrow> n = length hp \<Longrightarrow>
     \<exists>rs. results_loop n hp acc = Some (rs @ acc, [])
       \<and> mset rs = mset hp \<and> sorted (rev (map score_rank rs))"
proof (induction n arbitrary: hp acc)
  case 0
  then show ?case by simp
next
  case (Suc n)
  then have ne: "hp \<noteq> []" by auto
  then obtain x hp' where pop: "heap_Pop scoreLess hp = Some (x, hp')"
    using heap_Pop_Some [of hp scoreLess] by auto
  have "heap_Pop scoreLess hp = heap_Pop (\<lambda>a b. score_rank a < score_rank b) hp"
    by (rule heap_Pop_cong) (rule scoreLess_agree [OF Suc.prems(2)])
  with pop have pop': "heap_Pop (\<lambda>a b. score_rank a < score_rank b) hp = Some (x, hp')"
    by simp
  from heap_Pop_heap [OF heap_from_except_root [OF Suc.prems(1)] pop']
  have hf': "heap_from score_rank 0 (length hp') hp'" and x: "x = hp ! 0"
    and len': "length hp' = length hp - 1"
    by auto
  from heap_Pop_mset [OF pop] have ms: "add_mset x (mset hp') = mset hp" .
  then have sub: "set hp' \<subseteq> set hp"
    by (metis mset_eq_setD set_mset_add_mset_insert set_mset_mset subset_insertI)
  with Suc.prems(2) have nn': "\<forall>y \<in> set hp'. Score y \<noteq> NaN" by blast
  from len' Suc.prems(3) have n: "n = length hp'" by simp
  from Suc.IH [OF hf' nn' n, of "x # acc"] obtain rs where
    r: "results_loop n hp' (x # acc) = Some (rs @ x # acc, [])"
    and mr: "mset rs = mset hp'" and sr: "sorted (rev (map score_rank rs))"
    by blast
  have low: "\<forall>y \<in> set rs. score_rank x \<le> score_rank y"
  proof
    fix y assume "y \<in> set rs"
    with mr have "y \<in> set hp'" by (metis mset_eq_setD)
    with sub have "y \<in> set hp" by blast
    with heap_root_min_set [OF Suc.prems(1)] x show "score_rank x \<le> score_rank y" by simp
  qed
  let ?rs = "rs @ [x]"
  from pop r have "results_loop (Suc n) hp acc = Some (?rs @ acc, [])" by simp
  moreover from mr ms have "mset ?rs = mset hp" by simp
  moreover from sr low have "sorted (rev (map score_rank ?rs))" by auto
  ultimately show ?case by blast
qed

lemma NewTopKCollector_inv:
  "topk_inv (NewTopKCollector k0) {#}"
  by (simp add: NewTopKCollector_def topk_inv_def heap_from_def Let_def)

lemma retains_top:
  assumes nn: "\<forall>(d, s) \<in> set docs. s \<noteq> NaN"
    and res: "Results (collect_all (NewTopKCollector k0) docs) = Some (result, c')"
  shows "sorted_wrt (\<lambda>a b. f32_le (Score b) (Score a)) result
    \<and> (\<exists>dropped. mset (scored docs) = mset result + dropped
          \<and> (\<forall>x \<in># dropped. \<forall>y \<in> set result. f32_le (Score x) (Score y)))"
proof -
  let ?c = "collect_all (NewTopKCollector k0) docs"
  from topk_inv_collect_all [OF NewTopKCollector_inv nn, of k0]
  have inv: "topk_inv ?c (mset (scored docs))" by simp
  from inv have hf: "heap_from score_rank 0 (length (tk_h ?c)) (tk_h ?c)"
    and hn: "\<forall>y \<in> set (tk_h ?c). Score y \<noteq> NaN"
    by (simp_all add: topk_inv_def)
  from inv obtain dropped where seen: "mset (scored docs) = mset (tk_h ?c) + dropped"
    and dl: "\<forall>x \<in># dropped. \<forall>y \<in> set (tk_h ?c). score_rank x \<le> score_rank y"
    by (auto simp: topk_inv_def)
  from results_loop_spec [OF hf hn refl, of "[]"] obtain rs where
    r: "results_loop (length (tk_h ?c)) (tk_h ?c) [] = Some (rs, [])"
    and mr: "mset rs = mset (tk_h ?c)" and sr: "sorted (rev (map score_rank rs))"
    by auto
  from r res have rs: "rs = result" by (simp add: Results_def)
  from mr have sr': "set rs = set (tk_h ?c)" by (rule mset_eq_setD)
  have dnn: "\<forall>x \<in> set (scored docs). Score x \<noteq> NaN"
    using nn by (auto simp: scored_def)
  have rnn: "\<forall>y \<in> set rs. Score y \<noteq> NaN" using hn sr' by simp
  have drn: "\<forall>x \<in># dropped. Score x \<noteq> NaN"
  proof
    fix x assume "x \<in># dropped"
    with seen have "x \<in># mset (scored docs)" by simp
    with dnn show "Score x \<noteq> NaN" by simp
  qed
  from sr have "sorted_wrt (\<lambda>a b. score_rank b \<le> score_rank a) rs"
    by (simp only: sorted_rev_map)
  then have s1: "sorted_wrt (\<lambda>a b. f32_le (Score b) (Score a)) rs"
    by (rule sorted_wrt_mono_rel [rotated])
       (use rnn in \<open>simp add: f32_le_rank score_rank_def\<close>)
  have s2: "\<forall>x \<in># dropped. \<forall>y \<in> set rs. f32_le (Score x) (Score y)"
    using dl drn rnn sr' by (simp add: f32_le_rank score_rank_def)
  from s1 s2 seen mr show ?thesis unfolding rs [symmetric] by auto
qed

text \<open>
  Claim C10 as stated fails on a score that is NaN, which \<^verbatim>\<open>Collect\<close> accepts. With
  \<^verbatim>\<open>k = 0\<close> (so K = 10), collect document 1 with the score NaN, documents 2 to 10 with
  the scores 1.0 to 9.0 and then document 11 with the score 100.0: NaN sits at the root
  of the heap (no score is below NaN), \<^verbatim>\<open>minScore\<close> is NaN once the heap is full, and
  \<^verbatim>\<open>100.0 > NaN\<close> is false, so document 11 is dropped while document 2, with the score
  1.0, is returned.
\<close>

theorem NewTopKCollector_NaN_counterexample:
  "map_option (\<lambda>r. map DocID (fst r))
     (Results (collect_all (NewTopKCollector 0)
        [(1, NaN), (2, Fin 1), (3, Fin 2), (4, Fin 3), (5, Fin 4), (6, Fin 5), (7, Fin 6),
         (8, Fin 7), (9, Fin 8), (10, Fin 9), (11, Fin 100)]))
     = Some [10, 9, 8, 7, 6, 5, 4, 3, 2, 1]"
  by code_simp

text \<open>
  Claim C10, amended. \<^verbatim>\<open>NewTopKCollector\<close> called with \<^verbatim>\<open>k \<le> 0\<close> does not fail: the
  capacity it asks of \<^verbatim>\<open>make\<close> is 10, and it returns an empty collector with K = 10.
  Whatever documents are then collected, \<^verbatim>\<open>Results\<close> returns without a panic, with 10
  documents (all of them if fewer were collected). Provided that no collected score is
  NaN, they are the 10 highest-scoring documents, by descending score: the documents
  collected are the returned ones plus dropped ones, and no dropped document scores
  above a returned one.
\<close>

theorem NewTopKCollector_nonpositive_k:
  assumes "k0 \<le> 0"
  shows "\<not> make_panics (if k0 \<le> 0 then 10 else k0)
    \<and> NewTopKCollector k0 = \<lparr>tk_k = 10, tk_h = [], tk_minScore = Fin 0\<rparr>
    \<and> (\<exists>result c'.
          Results (collect_all (NewTopKCollector k0) docs) = Some (result, c')
          \<and> length result = min 10 (length docs)
          \<and> ((\<forall>(d, s) \<in> set docs. s \<noteq> NaN) \<longrightarrow>
               sorted_wrt (\<lambda>a b. f32_le (Score b) (Score a)) result
               \<and> (\<exists>dropped. mset (scored docs) = mset result + dropped
                     \<and> (\<forall>x \<in># dropped. \<forall>y \<in> set result. f32_le (Score x) (Score y)))))"
proof (intro conjI)
  from assms show "\<not> make_panics (if k0 \<le> 0 then 10 else k0)"
    by (simp add: make_panics_def)
  from assms show new: "NewTopKCollector k0 = \<lparr>tk_k = 10, tk_h = [], tk_minScore = Fin 0\<rparr>"
    by (simp add: NewTopKCollector_def)
  let ?c = "collect_all (NewTopKCollector k0) docs"
  from Results_total [of ?c] obtain result where
    res: "Results ?c = Some (result, ?c\<lparr>tk_h := []\<rparr>)" and lr: "length result = length (tk_h ?c)"
    by blast
  from collect_all_length [of "NewTopKCollector k0" docs] new
  have "int (length (tk_h ?c)) = min 10 (int (length docs))" by simp
  with lr have len: "length result = min 10 (length docs)" by linarith
  from retains_top [OF _ res]
  have "(\<forall>(d, s) \<in> set docs. s \<noteq> NaN) \<longrightarrow>
               sorted_wrt (\<lambda>a b. f32_le (Score b) (Score a)) result
               \<and> (\<exists>dropped. mset (scored docs) = mset result + dropped
                     \<and> (\<forall>x \<in># dropped. \<forall>y \<in> set result. f32_le (Score x) (Score y)))"
    by blast
  with res len
  show "\<exists>result c'.
          Results (collect_all (NewTopKCollector k0) docs) = Some (result, c')
          \<and> length result = min 10 (length docs)
          \<and> ((\<forall>(d, s) \<in> set docs. s \<noteq> NaN) \<longrightarrow>
               sorted_wrt (\<lambda>a b. f32_le (Score b) (Score a)) result
               \<and> (\<exists>dropped. mset (scored docs) = mset result + dropped
                     \<and> (\<forall>x \<in># dropped. \<forall>y \<in> set result. f32_le (Score x) (Score y))))"
    by blast
qed

theorem NewTopKCollector_nonpositive_k_witness:
  "(- 3 :: int) \<le> 0
   \<and> NaN \<notin> set (map snd [(1 :: 32 word, Fin 4), (2, Fin 12), (3, Fin 1), (4, Fin 9), (5, NegInf),
          (6, Fin 2), (7, Fin 11), (8, Fin 3), (9, PosInf), (10, Fin 6), (11, Fin 8), (12, Fin 5)])
   \<and> NewTopKCollector (- 3) = \<lparr>tk_k = 10, tk_h = [], tk_minScore = Fin 0\<rparr>
   \<and> (\<exists>result c'.
        Results (collect_all (NewTopKCollector (- 3))
           [(1, Fin 4), (2, Fin 12), (3, Fin 1), (4, Fin 9), (5, NegInf), (6, Fin 2),
            (7, Fin 11), (8, Fin 3), (9, PosInf), (10, Fin 6), (11, Fin 8), (12, Fin 5)])
          = Some (result, c')
        \<and> length result = 10
        \<and> sorted_wrt (\<lambda>a b. f32_le (Score b) (Score a)) result)
   \<and> map_option (\<lambda>r. map Score (fst r))
        (Results (collect_all (NewTopKCollector (- 3))
           [(1, Fin 4), (2, Fin 12), (3, Fin 1), (4, Fin 9), (5, NegInf), (6, Fin 2),
            (7, Fin 11), (8, Fin 3), (9, PosInf), (10, Fin 6), (11, Fin 8), (12, Fin 5)]))
       = Some [PosInf, Fin 12, Fin 11, Fin 9, Fin 8, Fin 6, Fin 5, Fin 4, Fin 3, Fin 2]"
proof -
  let ?docs = "[(1 :: 32 word, Fin 4), (2, Fin 12), (3, Fin 1), (4, Fin 9), (5, NegInf),
          (6, Fin 2), (7, Fin 11), (8, Fin 3), (9, PosInf), (10, Fin 6), (11, Fin 8), (12, Fin 5)]"
  have h: "(- 3 :: int) \<le> 0" by simp
  have nn: "\<forall>(d, s) \<in> set ?docs. s \<noteq> NaN" by simp
  from NewTopKCollector_nonpositive_k [OF h, of ?docs]
  have a: "NewTopKCollector (- 3) = \<lparr>tk_k = 10, tk_h = [], tk_minScore = Fin 0\<rparr>"
    and "\<exists>result c'.
          Results (collect_all (NewTopKCollector (- 3)) ?docs) = Some (result, c')
          \<and> length result = min 10 (length ?docs)
          \<and> ((\<forall>(d, s) \<in> set ?docs. s \<noteq> NaN) \<longrightarrow>
               sorted_wrt (\<lambda>a b. f32_le (Score b) (Score a)) result
               \<and> (\<exists>dropped. mset (scored ?docs) = mset result + dropped
                     \<and> (\<forall>x \<in># dropped. \<forall>y \<in> set result. f32_le (Score x) (Score y))))"
    by blast+
  then obtain result c' where
    r: "Results (collect_all (NewTopKCollector (- 3)) ?docs) = Some (result, c')"
    and l: "length result = min 10 (length ?docs)"
    and i: "(\<forall>(d, s) \<in> set ?docs. s \<noteq> NaN) \<longrightarrow>
               sorted_wrt (\<lambda>a b. f32_le (Score b) (Score a)) result"
    by blast
  from l have l': "length result = 10" by simp
  from i nn have s: "sorted_wrt (\<lambda>a b. f32_le (Score b) (Score a)) result" by blast
  have e: "map_option (\<lambda>r. map Score (fst r))
        (Results (collect_all (NewTopKCollector (- 3)) ?docs))
       = Some [PosInf, Fin 12, Fin 11, Fin 9, Fin 8, Fin 6, Fin 5, Fin 4, Fin 3, Fin 2]"
    by code_simp
  have nn': "NaN \<notin> set (map snd ?docs)" by simp
  from h nn' a r l' s e show ?thesis by blast
qed
end
